theory Spec2Isabelle
  imports Main "HOL-Library.Sublist"
begin

section \<open>Data model of the help-chat report\<close>

text \<open>
  The embedding follows \<^verbatim>\<open>help_chat_report.py\<close> and \<^verbatim>\<open>help_chat_nom_context.py\<close>.
  Python strings are character lists (one \<^typ>\<open>char\<close> per code point), Python integers are
  \<^typ>\<open>int\<close>, exceptions are values of \<open>error\<close>.
\<close>

datatype ChannelStatus = INCOMPLETE | IN_PROGRESS | COMPLETE

datatype error = SourceFetchError | TypeError | IndexError

text \<open>
  A \<^verbatim>\<open>discord.Message\<close> as far as the scan reads it: \<^verbatim>\<open>content\<close> is \<open>None\<close> when it is
  not a \<^verbatim>\<open>str\<close> and \<open>Some text\<close> when it is one (the empty string included).
\<close>

record datetime =
  year :: int
  month :: int
  day :: int
  hour :: int
  minute :: int
  second :: int

record Message =
  content :: "string option"
  author_id :: int
  created_at :: datetime

text \<open>
  The asynchronous iterator returned by \<^verbatim>\<open>TextChannel.history\<close>: it yields a message and
  goes on, is exhausted, or raises (the transport or the API failed).
\<close>

datatype HistoryIterator = Exhausted | Raises | Yields Message HistoryIterator

record TextChannel =
  mention :: string
  history :: HistoryIterator

text \<open>
  \<^verbatim>\<open>HelpChannel\<close> lives in \<^verbatim>\<open>help_chat_cache\<close>, outside the sources at hand; the only thing
  the scan does with it is \<^verbatim>\<open>help_channel.channel(ctx)\<close>, so a help channel is taken to be
  the text channel it resolves to.
\<close>

type_synonym HelpChannel = TextChannel

record ChannelState =
  help_channel :: HelpChannel
  channel :: TextChannel
  status :: ChannelStatus
  total_messages :: "int option"
  total_message_length :: "int option"

text \<open>
  \<^verbatim>\<open>UserTable\<close> is a \<^verbatim>\<open>defaultdict\<close> of \<^verbatim>\<open>defaultdict(int)\<close>. Python dictionaries iterate
  in insertion order, and the ranking depends on that order, so both levels are association
  lists in insertion order.
\<close>

type_synonym DailyKey = "int \<times> int \<times> int"

type_synonym UserRecord = "(DailyKey \<times> int) list"

type_synonym UserTable = "(int \<times> UserRecord) list"

record HelpChatSummaryOptions =
  split_length :: int
  max_rows :: int
  min_score :: int

record HelpChatReport =
  after :: datetime
  before :: datetime
  built_at :: datetime
  channel_states :: "ChannelState list"
  user_table :: UserTable

section \<open>Strings\<close>

text \<open>Python's \<^verbatim>\<open>str(n)\<close> for an integer, and \<^verbatim>\<open>"\n".join(xs)\<close>.\<close>

fun digits :: "nat \<Rightarrow> string" where
  "digits n = (if n < 10 then [''0123456789'' ! n]
               else digits (n div 10) @ [''0123456789'' ! (n mod 10)])"

declare digits.simps [simp del]

definition str_int :: "int \<Rightarrow> string" where
  "str_int i = (if i < 0 then CHR ''-'' # digits (nat (- i)) else digits (nat i))"

definition newline :: string where
  "newline = [CHR 0x0A]"

fun join_newline :: "string list \<Rightarrow> string" where
  "join_newline [] = []"
| "join_newline [x] = x"
| "join_newline (x # y # ys) = x @ newline @ join_newline (y # ys)"

text \<open>
  Modelled from the spec: \<^verbatim>\<open>DATE_FMT_YYYY_MM_DD\<close> and \<^verbatim>\<open>DATE_FMT_YYYY_MM_DD_HH_MM_SS\<close> are
  declared in \<^verbatim>\<open>help_chat.utils\<close>, outside the sources at hand; the spec fixes the two
  display formats as \<^verbatim>\<open>YYYY-MM-DD\<close> and \<^verbatim>\<open>YYYY-MM-DD HH:MM:SS\<close>, zero-padded as
  \<^verbatim>\<open>strftime\<close> does.
\<close>

definition zero_pad :: "nat \<Rightarrow> string \<Rightarrow> string" where
  "zero_pad n s = replicate (n - length s) (CHR ''0'') @ s"

definition strftime_ymd :: "datetime \<Rightarrow> string" where
  "strftime_ymd d =
     zero_pad 4 (str_int (year d)) @ ''-'' @ zero_pad 2 (str_int (month d))
     @ ''-'' @ zero_pad 2 (str_int (day d))"

definition strftime_ymd_hms :: "datetime \<Rightarrow> string" where
  "strftime_ymd_hms d =
     strftime_ymd d @ '' '' @ zero_pad 2 (str_int (hour d)) @ '':''
     @ zero_pad 2 (str_int (minute d)) @ '':'' @ zero_pad 2 (str_int (second d))"

section \<open>Summary lines and batches of \<^verbatim>\<open>HelpChatReport\<close>\<close>

text \<open>\<^verbatim>\<open>get_user_results\<close>: one row (user, score, days active) per entry of the table.\<close>

definition get_user_results :: "HelpChatReport \<Rightarrow> (int \<times> int \<times> int) list" where
  "get_user_results r =
     map (\<lambda>(user_id, user_record).
            (user_id, sum_list (map snd user_record), int (length user_record)))
         (user_table r)"

text \<open>
  \<^verbatim>\<open>sorted(self.get_user_results(), key=lambda row: -row[1])\<close>. Python's \<^verbatim>\<open>sorted\<close> is
  stable, and so is the insertion sort \<^const>\<open>sort_key\<close>.
\<close>

definition sorted_user_results :: "HelpChatReport \<Rightarrow> (int \<times> int \<times> int) list" where
  "sorted_user_results r = sort_key (\<lambda>row. - fst (snd row)) (get_user_results r)"

text \<open>
  The loop over \<^verbatim>\<open>enumerate(sorted_user_results)\<close> with its \<^verbatim>\<open>break\<close>: the rows that get
  a line, and the line of one row.
\<close>

fun ranked_rows ::
  "HelpChatSummaryOptions \<Rightarrow> int \<Rightarrow> (int \<times> int \<times> int) list \<Rightarrow> (int \<times> int \<times> int) list" where
  "ranked_rows options i [] = []"
| "ranked_rows options i ((user_id, score, days_active) # rest) =
     (if i \<ge> max_rows options \<or> score < min_score options then []
      else (user_id, score, days_active) # ranked_rows options (i + 1) rest)"

definition row_line :: "int \<times> int \<times> int \<Rightarrow> string" where
  "row_line row = (case row of (user_id, score, days_active) \<Rightarrow>
     ''<@'' @ str_int user_id @ ''>: **'' @ str_int score @ ''**''
     @ '' ('' @ str_int days_active @ '' days active)'')"

definition header_line :: "HelpChatReport \<Rightarrow> HelpChatSummaryOptions \<Rightarrow> string" where
  "header_line r options =
     ''Showing the top '' @ str_int (max_rows options) @ '' results (of ''
       @ str_int (int (length (sorted_user_results r))) @ '')''
     @ '' with a score of at least '' @ str_int (min_score options) @ ''.''
     @ '' A user'' @ [CHR 0x27] @ ''s score is determined by summing the length of all their messages''
     @ '' from '' @ strftime_ymd (after r) @ '' up to '' @ strftime_ymd (before r) @ ''.''
     @ newline"

definition build_summary_lines :: "HelpChatReport \<Rightarrow> HelpChatSummaryOptions \<Rightarrow> string list" where
  "build_summary_lines r options =
     header_line r options # map row_line (ranked_rows options 0 (sorted_user_results r))"

text \<open>
  The batching loop, the same text in \<^verbatim>\<open>HelpChatReport.batch_summary_text\<close> and in
  \<^verbatim>\<open>HelpChatNomContext.batch_summary_text\<close>: \<open>batch\<close> is the accumulator, the result is
  the list of the batches yielded, in order.
\<close>

fun batch_loop :: "int \<Rightarrow> string \<Rightarrow> string list \<Rightarrow> string list" where
  "batch_loop limit batch [] = (if batch \<noteq> [] then [batch] else [])"
| "batch_loop limit batch (line # lines) =
     (let would_be_text = batch @ newline @ line in
      if int (length would_be_text) \<le> limit
      then batch_loop limit would_be_text lines
      else batch # batch_loop limit line lines)"

definition batch_summary_text :: "HelpChatReport \<Rightarrow> HelpChatSummaryOptions \<Rightarrow> string list" where
  "batch_summary_text r options =
     batch_loop (split_length options) [] (build_summary_lines r options)"

text \<open>
  \<^verbatim>\<open>HelpChatSummaryOptions\<close> is a plain \<^verbatim>\<open>@dataclass\<close>: the generated \<^verbatim>\<open>__init__\<close>
  stores the three fields and checks nothing.
\<close>

definition HelpChatSummaryOptions_init :: "int \<Rightarrow> int \<Rightarrow> int \<Rightarrow> error + HelpChatSummaryOptions" where
  "HelpChatSummaryOptions_init sl mr ms =
     Inr \<lparr>split_length = sl, max_rows = mr, min_score = ms\<rparr>"

record Embed =
  title :: string
  description :: string
  footer :: "string option"

definition make_summary_batch_embed :: "HelpChatReport \<Rightarrow> int \<Rightarrow> int \<Rightarrow> string \<Rightarrow> Embed" where
  "make_summary_batch_embed r batch_no count_batches text =
     \<lparr>title = ''Help-chat Report '' @ strftime_ymd_hms (built_at r),
      description = text,
      footer = (if count_batches > 1
                then Some (str_int batch_no @ '' of '' @ str_int count_batches)
                else None)\<rparr>"

text \<open>
  What \<^verbatim>\<open>summarize\<close> sends: a reply with a content and the first embed, then one plain send
  for each remaining batch. \<^verbatim>\<open>batches[0]\<close> raises \<^verbatim>\<open>IndexError\<close> on an empty list.
\<close>

datatype ChatCall = CtxReply string Embed | CtxSend Embed

definition summarize :: "HelpChatReport \<Rightarrow> int \<Rightarrow> int \<Rightarrow> int \<Rightarrow> error + ChatCall list" where
  "summarize r sl mr ms =
     (case HelpChatSummaryOptions_init sl mr ms of
        Inl e \<Rightarrow> Inl e
      | Inr options \<Rightarrow>
          (let batches = batch_summary_text r options;
               count_batches = int (length batches)
           in case batches of
                [] \<Rightarrow> Inl IndexError
              | first_batch # rest \<Rightarrow>
                  Inr (CtxReply ''The results are in:''
                         (make_summary_batch_embed r 1 count_batches first_batch)
                       # map (\<lambda>(i, batch).
                                CtxSend (make_summary_batch_embed r (int i + 2) count_batches batch))
                             (enumerate 0 rest))))"

section \<open>Summary lines and batches of \<^verbatim>\<open>HelpChatNomContext\<close>\<close>

text \<open>\<^verbatim>\<open>str\<close> of an \<^verbatim>\<open>Optional[int]\<close>, as the f-string renders a counter.\<close>

definition str_optional_int :: "int option \<Rightarrow> string" where
  "str_optional_int v = (case v of None \<Rightarrow> ''None'' | Some n \<Rightarrow> str_int n)"

definition nom_build_summary_lines :: "ChannelState list \<Rightarrow> string list" where
  "nom_build_summary_lines states =
     map (\<lambda>state. mention (channel state) @ '': '' @ str_optional_int (total_messages state)
                   @ '' ('' @ str_optional_int (total_message_length state) @ '')'')
         states"

definition nom_batch_summary_text :: "int \<Rightarrow> ChannelState list \<Rightarrow> string list" where
  "nom_batch_summary_text nom_summary_batch_length states =
     batch_loop nom_summary_batch_length [] (nom_build_summary_lines states)"

section \<open>The scan: \<^verbatim>\<open>HelpChatReportBuildContext\<close>\<close>

text \<open>
  The context's own fields carry the prefix \<open>self_\<close>. Three more fields record what an
  observer of a run sees: \<open>progress_calls\<close>, the calls \<^verbatim>\<open>update\<close> makes on the chat;
  \<open>states_log\<close>, the channel states after every statement that writes one of them;
  \<open>history_calls\<close>, the positions of the channels whose \<^verbatim>\<open>history\<close> was requested.

  \<^verbatim>\<open>build_progress_text\<close> writes the progress text from the channel states, the window and
  the number of channels. The last two never change during a run, and the status glyphs lie
  outside \<^typ>\<open>char\<close>, so a progress call is recorded with the channel states its text was
  rendered from, as they were at the call, in place of the text.
\<close>

datatype ProgressCall = Reply "ChannelState list" | Edit "ChannelState list"

fun rendered :: "ProgressCall \<Rightarrow> ChannelState list" where
  "rendered (Reply states) = states"
| "rendered (Edit states) = states"

record HelpChatReportBuildContext =
  self_help_channels :: "HelpChannel list"
  self_after :: datetime
  self_before :: datetime
  self_progress_message :: "ChannelState list option"
  self_built_at :: datetime
  self_channel_states :: "ChannelState list"
  self_user_table :: UserTable
  progress_calls :: "ProgressCall list"
  states_log :: "ChannelState list list"
  history_calls :: "nat list"

text \<open>Every write to the channel states goes through \<open>commit\<close>, which logs the new states.\<close>

definition commit :: "ChannelState list \<Rightarrow> HelpChatReportBuildContext \<Rightarrow> HelpChatReportBuildContext" where
  "commit states c = c\<lparr>self_channel_states := states, states_log := states_log c @ [states]\<rparr>"

text \<open>
  \<^verbatim>\<open>channel_state.field = value\<close> on the state at position \<open>i\<close>: \<open>f\<close> is the field
  update.
\<close>

definition assign ::
  "nat \<Rightarrow> (ChannelState \<Rightarrow> ChannelState) \<Rightarrow> HelpChatReportBuildContext \<Rightarrow> HelpChatReportBuildContext" where
  "assign i f c = commit ((self_channel_states c)[i := f (self_channel_states c ! i)]) c"

definition new_channel_state :: "HelpChannel \<Rightarrow> ChannelState" where
  "new_channel_state h =
     \<lparr>help_channel = h, channel = h, status = INCOMPLETE,
      total_messages = None, total_message_length = None\<rparr>"

text \<open>
  \<^verbatim>\<open>__init__\<close> stores the channels and the window; \<^verbatim>\<open>reset\<close>, the first thing
  \<^verbatim>\<open>build\<close> does, sets every other field anew. The two together give the context a run
  starts from; \<open>utcnow\<close> is what \<^verbatim>\<open>datetime.utcnow()\<close> returns.
\<close>

definition reset ::
  "datetime \<Rightarrow> HelpChannel list \<Rightarrow> datetime \<Rightarrow> datetime \<Rightarrow> HelpChatReportBuildContext" where
  "reset utcnow chans a b =
     \<lparr>self_help_channels = chans, self_after = a, self_before = b,
      self_progress_message = None, self_built_at = utcnow,
      self_channel_states = map new_channel_state chans, self_user_table = [],
      progress_calls = [], states_log = [map new_channel_state chans], history_calls = []\<rparr>"

definition is_finished :: "ChannelState list \<Rightarrow> bool" where
  "is_finished states = list_all (\<lambda>state. status state = COMPLETE) states"

definition get_states_with_status :: "ChannelStatus \<Rightarrow> ChannelState list \<Rightarrow> ChannelState list" where
  "get_states_with_status s states = filter (\<lambda>state. status state = s) states"

text \<open>
  \<^verbatim>\<open>update\<close>: the progress text is rendered from the channel states as they are now; the
  first call replies, every later call edits the message the first one created.
\<close>

definition update :: "HelpChatReportBuildContext \<Rightarrow> HelpChatReportBuildContext" where
  "update c =
     (let progress_text = self_channel_states c in
      case self_progress_message c of
        Some _ \<Rightarrow> c\<lparr>self_progress_message := Some progress_text,
                    progress_calls := progress_calls c @ [Edit progress_text]\<rparr>
      | None \<Rightarrow> c\<lparr>self_progress_message := Some progress_text,
                  progress_calls := progress_calls c @ [Reply progress_text]\<rparr>)"

text \<open>
  The author's record: \<^verbatim>\<open>self._user_table[author.id]\<close> creates a missing record,
  \<^verbatim>\<open>user_record[daily_key] += n\<close> creates a missing day at \<open>0\<close> before adding.
\<close>

fun add_daily :: "DailyKey \<Rightarrow> int \<Rightarrow> UserRecord \<Rightarrow> UserRecord" where
  "add_daily k n [] = [(k, 0 + n)]"
| "add_daily k n ((k', v) # rest) =
     (if k' = k then (k', v + n) # rest else (k', v) # add_daily k n rest)"

fun add_user_daily :: "int \<Rightarrow> DailyKey \<Rightarrow> int \<Rightarrow> UserTable \<Rightarrow> UserTable" where
  "add_user_daily u k n [] = [(u, add_daily k n [])]"
| "add_user_daily u k n ((u', user_record) # rest) =
     (if u' = u then (u', add_daily k n user_record) # rest
      else (u', user_record) # add_user_daily u k n rest)"

text \<open>Reading an entry as the \<^verbatim>\<open>defaultdict\<close> would give it, without creating it.\<close>

definition daily_value :: "UserTable \<Rightarrow> int \<Rightarrow> DailyKey \<Rightarrow> int" where
  "daily_value t u k =
     (case map_of t u of
        None \<Rightarrow> 0
      | Some user_record \<Rightarrow> (case map_of user_record k of None \<Rightarrow> 0 | Some v \<Rightarrow> v))"

text \<open>
  The body of \<^verbatim>\<open>async for message in history\<close> for the channel at position \<open>i\<close>. The
  result is the exception raised, if any, and the context. \<^verbatim>\<open>+=\<close> on a counter that is
  still \<open>None\<close> raises \<^verbatim>\<open>TypeError\<close>.
\<close>

definition scan_message ::
  "nat \<Rightarrow> Message \<Rightarrow> HelpChatReportBuildContext \<Rightarrow> error option \<times> HelpChatReportBuildContext" where
  "scan_message i message c =
     (case content message of
        None \<Rightarrow> (None, c)
      | Some text \<Rightarrow>
          (let message_length = int (length text) in
           case total_messages (self_channel_states c ! i) of
             None \<Rightarrow> (Some TypeError, c)
           | Some n \<Rightarrow>
               (let c1 = assign i (\<lambda>state. state\<lparr>total_messages := Some (n + 1)\<rparr>) c in
                case total_message_length (self_channel_states c1 ! i) of
                  None \<Rightarrow> (Some TypeError, c1)
                | Some l \<Rightarrow>
                    (let c2 = assign i (\<lambda>state. state\<lparr>total_message_length :=
                                                       Some (l + message_length)\<rparr>) c1;
                         daily_key = (year (created_at message), month (created_at message),
                                      day (created_at message))
                     in (None, c2\<lparr>self_user_table :=
                                    add_user_daily (author_id message) daily_key message_length
                                      (self_user_table c2)\<rparr>)))))"

fun scan_history ::
  "nat \<Rightarrow> HistoryIterator \<Rightarrow> HelpChatReportBuildContext \<Rightarrow> error option \<times> HelpChatReportBuildContext" where
  "scan_history i Exhausted c = (None, c)"
| "scan_history i Raises c = (Some SourceFetchError, c)"
| "scan_history i (Yields message rest) c =
     (case scan_message i message c of
        (Some e, c') \<Rightarrow> (Some e, c')
      | (None, c') \<Rightarrow> scan_history i rest c')"

text \<open>
  One turn of \<^verbatim>\<open>for channel_state in self._channel_states\<close>, for the state at position
  \<open>i\<close>, and the loop over the positions.
\<close>

definition scan_channel ::
  "nat \<Rightarrow> HelpChatReportBuildContext \<Rightarrow> error option \<times> HelpChatReportBuildContext" where
  "scan_channel i c =
     (let c1 = update (assign i (\<lambda>state. state\<lparr>status := IN_PROGRESS\<rparr>) c);
          iterator = history (channel (self_channel_states c1 ! i));
          c2 = c1\<lparr>history_calls := history_calls c1 @ [i]\<rparr>;
          c3 = assign i (\<lambda>state. state\<lparr>total_messages := Some 0\<rparr>) c2;
          c4 = assign i (\<lambda>state. state\<lparr>total_message_length := Some 0\<rparr>) c3
      in case scan_history i iterator c4 of
           (Some e, c5) \<Rightarrow> (Some e, c5)
         | (None, c5) \<Rightarrow> (None, assign i (\<lambda>state. state\<lparr>status := COMPLETE\<rparr>) c5))"

fun scan_channels ::
  "nat list \<Rightarrow> HelpChatReportBuildContext \<Rightarrow> error option \<times> HelpChatReportBuildContext" where
  "scan_channels [] c = (None, c)"
| "scan_channels (i # positions) c =
     (case scan_channel i c of
        (Some e, c') \<Rightarrow> (Some e, c')
      | (None, c') \<Rightarrow> scan_channels positions c')"

text \<open>
  \<^verbatim>\<open>build\<close>: the exception that left it or the report it returned, and the context as the
  run left it.
\<close>

definition build ::
  "datetime \<Rightarrow> HelpChannel list \<Rightarrow> datetime \<Rightarrow> datetime
   \<Rightarrow> (error + HelpChatReport) \<times> HelpChatReportBuildContext" where
  "build utcnow chans a b =
     (let c1 = update (reset utcnow chans a b) in
      case scan_channels [0..<length (self_channel_states c1)] c1 of
        (Some e, c2) \<Rightarrow> (Inl e, c2)
      | (None, c2) \<Rightarrow>
          (let c3 = update c2 in
           (Inr \<lparr>after = self_after c3, before = self_before c3,
                 built_at = self_built_at c3,
                 channel_states = self_channel_states c3,
                 user_table = self_user_table c3\<rparr>, c3)))"

text \<open>
  The message loop of \<^verbatim>\<open>HelpChatNomContext.run\<close> keeps the two counters only; its body
  for one message, on the state being scanned.
\<close>

definition nom_scan_message :: "Message \<Rightarrow> ChannelState \<Rightarrow> error + ChannelState" where
  "nom_scan_message message state =
     (case content message of
        None \<Rightarrow> Inr state
      | Some text \<Rightarrow>
          (case total_messages state of
             None \<Rightarrow> Inl TypeError
           | Some n \<Rightarrow>
               (case total_message_length state of
                  None \<Rightarrow> Inl TypeError
                | Some l \<Rightarrow>
                    Inr (state\<lparr>total_messages := Some (n + 1),
                               total_message_length := Some (l + int (length text))\<rparr>))))"

section \<open>What a run is observed to do\<close>

text \<open>Whether iterating a history ends in an exception.\<close>

fun raises :: "HistoryIterator \<Rightarrow> bool" where
  "raises Exhausted = False"
| "raises Raises = True"
| "raises (Yields message rest) = raises rest"

text \<open>
  The status values the state at position \<open>i\<close> takes on, in order, read off the logged
  channel states with repetitions collapsed.
\<close>

definition status_sequence :: "nat \<Rightarrow> ChannelState list list \<Rightarrow> ChannelStatus list" where
  "status_sequence i log = remdups_adj (map (\<lambda>states. status (states ! i)) log)"

definition counted :: "ChannelState \<Rightarrow> bool" where
  "counted state = (total_messages state \<noteq> None \<and> total_message_length state \<noteq> None)"

text \<open>
  The statuses of \<open>n\<close> channels while the one at position \<open>k\<close> is being scanned: the
  earlier ones complete, the later ones incomplete.
\<close>

definition scanning_snapshot :: "nat \<Rightarrow> nat \<Rightarrow> ChannelStatus list" where
  "scanning_snapshot n k = replicate k COMPLETE @ IN_PROGRESS # replicate (n - Suc k) INCOMPLETE"

section \<open>Invariants of the scan\<close>

text \<open>
  The predicates the proofs carry through a run. \<open>log_ok\<close>: the log ends in the current
  channel states, no logged state is complete without its counters, and every progress call
  rendered a logged state. \<open>between_channels chans k\<close> holds before the channel at position
  \<open>k\<close> is touched, \<open>within_channel chans k\<close> while its history is read.
\<close>

definition log_ok :: "HelpChatReportBuildContext \<Rightarrow> bool" where
  "log_ok c \<longleftrightarrow>
     states_log c \<noteq> [] \<and> last (states_log c) = self_channel_states c
   \<and> (\<forall>states \<in> set (states_log c). \<forall>state \<in> set states. status state = COMPLETE \<longrightarrow> counted state)
   \<and> (\<forall>p \<in> set (progress_calls c). rendered p \<in> set (states_log c))"

definition finished_channel :: "nat \<Rightarrow> HelpChatReportBuildContext \<Rightarrow> bool" where
  "finished_channel j c \<longleftrightarrow>
     status (self_channel_states c ! j) = COMPLETE \<and> counted (self_channel_states c ! j)
   \<and> status_sequence j (states_log c) = [INCOMPLETE, IN_PROGRESS, COMPLETE]"

definition untouched_channel :: "HelpChannel list \<Rightarrow> nat \<Rightarrow> HelpChatReportBuildContext \<Rightarrow> bool" where
  "untouched_channel chans j c \<longleftrightarrow>
     self_channel_states c ! j = new_channel_state (chans ! j)
   \<and> status_sequence j (states_log c) = [INCOMPLETE]"

definition others_ok :: "HelpChannel list \<Rightarrow> nat \<Rightarrow> HelpChatReportBuildContext \<Rightarrow> bool" where
  "others_ok chans k c \<longleftrightarrow>
     log_ok c \<and> length (self_channel_states c) = length chans \<and> k < length chans
   \<and> (\<forall>j<k. finished_channel j c)
   \<and> (\<forall>j. k < j \<and> j < length chans \<longrightarrow> untouched_channel chans j c)"

definition between_channels :: "HelpChannel list \<Rightarrow> nat \<Rightarrow> HelpChatReportBuildContext \<Rightarrow> bool" where
  "between_channels chans k c \<longleftrightarrow>
     log_ok c \<and> length (self_channel_states c) = length chans \<and> k \<le> length chans
   \<and> (\<forall>j<k. finished_channel j c)
   \<and> (\<forall>j. k \<le> j \<and> j < length chans \<longrightarrow> untouched_channel chans j c)
   \<and> self_progress_message c \<noteq> None
   \<and> map (map status \<circ> rendered) (progress_calls c)
       = replicate (length chans) INCOMPLETE # map (scanning_snapshot (length chans)) [0..<k]
   \<and> history_calls c = [0..<k]"

definition within_channel :: "HelpChannel list \<Rightarrow> nat \<Rightarrow> HelpChatReportBuildContext \<Rightarrow> bool" where
  "within_channel chans k c \<longleftrightarrow>
     others_ok chans k c
   \<and> status (self_channel_states c ! k) = IN_PROGRESS \<and> counted (self_channel_states c ! k)
   \<and> status_sequence k (states_log c) = [INCOMPLETE, IN_PROGRESS]
   \<and> self_progress_message c \<noteq> None
   \<and> map (map status \<circ> rendered) (progress_calls c)
       = replicate (length chans) INCOMPLETE # map (scanning_snapshot (length chans)) [0..<Suc k]
   \<and> history_calls c = [0..<Suc k]"

text \<open>The window and the build instant are never written after \<open>reset\<close>.\<close>

definition same_window :: "HelpChatReportBuildContext \<Rightarrow> HelpChatReportBuildContext \<Rightarrow> bool" where
  "same_window c c' \<longleftrightarrow>
     self_after c' = self_after c \<and> self_before c' = self_before c
   \<and> self_built_at c' = self_built_at c"

text \<open>One day of one author's record, read as the \<^verbatim>\<open>defaultdict\<close> would give it.\<close>

definition record_value :: "UserRecord \<Rightarrow> DailyKey \<Rightarrow> int" where
  "record_value user_record k = (case map_of user_record k of None \<Rightarrow> 0 | Some v \<Rightarrow> v)"

section \<open>Concrete runs and reports\<close>

text \<open>
  The scenario of the specification: a window from 2024-01-01 to 2024-01-03, channel A with
  two messages of lengths 5 and 10 on the first day, channel B with one message of length 7 on
  the second day, all by author 1. Beside it a channel whose history raises after one message,
  and a channel whose only message has the empty string as content.
\<close>

definition window_after :: datetime where
  "window_after = \<lparr>year = 2024, month = 1, day = 1, hour = 0, minute = 0, second = 0\<rparr>"

definition window_before :: datetime where
  "window_before = \<lparr>year = 2024, month = 1, day = 3, hour = 0, minute = 0, second = 0\<rparr>"

definition message_on :: "int \<Rightarrow> string option \<Rightarrow> Message" where
  "message_on d body =
     \<lparr>content = body, author_id = 1,
      created_at = \<lparr>year = 2024, month = 1, day = d, hour = 12, minute = 0, second = 0\<rparr>\<rparr>"

definition channel_A :: TextChannel where
  "channel_A = \<lparr>mention = ''#A'',
      history = Yields (message_on 1 (Some ''hello''))
                 (Yields (message_on 1 (Some ''0123456789'')) Exhausted)\<rparr>"

definition channel_B :: TextChannel where
  "channel_B = \<lparr>mention = ''#B'', history = Yields (message_on 2 (Some ''1234567'')) Exhausted\<rparr>"

definition channel_failing :: TextChannel where
  "channel_failing = \<lparr>mention = ''#F'', history = Yields (message_on 2 (Some ''abc'')) Raises\<rparr>"

definition channel_attachment_only :: TextChannel where
  "channel_attachment_only = \<lparr>mention = ''#E'', history = Yields (message_on 1 (Some [])) Exhausted\<rparr>"

definition scanned_state :: ChannelState where
  "scanned_state =
     \<lparr>help_channel = channel_A, channel = channel_A, status = COMPLETE,
      total_messages = Some 2, total_message_length = Some 15\<rparr>"

definition empty_report :: HelpChatReport where
  "empty_report =
     \<lparr>after = window_after, before = window_before, built_at = window_after,
      channel_states = [], user_table = []\<rparr>"

definition tied_report :: HelpChatReport where
  "tied_report =
     \<lparr>after = window_after, before = window_before, built_at = window_after,
      channel_states = [],
      user_table = [(1, [((2024, 1, 1), 15), ((2024, 1, 2), 7)]), (2, [((2024, 1, 1), 30)]),
                    (3, [((2024, 1, 2), 22)]), (4, [((2024, 1, 1), 3)])]\<rparr>"

definition wide_options :: HelpChatSummaryOptions where
  "wide_options = \<lparr>split_length = 2000, max_rows = 10, min_score = 25\<rparr>"

definition narrow_options :: HelpChatSummaryOptions where
  "narrow_options = \<lparr>split_length = 40, max_rows = 10, min_score = 25\<rparr>"

definition top_options :: HelpChatSummaryOptions where
  "top_options = \<lparr>split_length = 2000, max_rows = 3, min_score = 5\<rparr>"

section \<open>The batching loop\<close>

lemma batch_loop_nonempty:
  "batch \<noteq> [] \<or> lines \<noteq> [] \<Longrightarrow> batch_loop limit batch lines \<noteq> []"
proof (induction lines arbitrary: batch)
  case Nil
  then show ?case by simp
next
  case (Cons line lines)
  have "batch @ newline @ line \<noteq> []" by (simp add: newline_def)
  then show ?case using Cons.IH [of "batch @ newline @ line"] by (simp add: Let_def)
qed

lemma join_newline_Cons: "xs \<noteq> [] \<Longrightarrow> join_newline (x # xs) = x @ newline @ join_newline xs"
  by (cases xs) simp_all

lemma join_newline_merge: "join_newline ((a @ newline @ b) # rest) = join_newline (a # b # rest)"
  by (cases rest) simp_all

lemma batch_loop_join:
  "last (batch # lines) \<noteq> [] \<Longrightarrow>
   join_newline (batch_loop limit batch lines) = join_newline (batch # lines)"
proof (induction lines arbitrary: batch)
  case Nil
  then show ?case by simp
next
  case (Cons line lines)
  let ?w = "batch @ newline @ line"
  show ?case
  proof (cases "int (length ?w) \<le> limit")
    case True
    have "last (?w # lines) \<noteq> []" using Cons.prems by (cases lines) (simp_all add: newline_def)
    then have "join_newline (batch_loop limit ?w lines) = join_newline (?w # lines)"
      by (rule Cons.IH)
    then show ?thesis using True by (simp add: Let_def join_newline_merge del: join_newline.simps)
  next
    case False
    have l: "last (line # lines) \<noteq> []" using Cons.prems by simp
    then have ne: "batch_loop limit line lines \<noteq> []"
      by (intro batch_loop_nonempty) (cases lines; simp)
    have "join_newline (batch_loop limit line lines) = join_newline (line # lines)"
      using l by (rule Cons.IH)
    then show ?thesis using False ne
      by (simp add: Let_def join_newline_Cons del: join_newline.simps)
  qed
qed

text \<open>
  What the loop does yield: for lines that do not end in an empty line, the batches joined by
  newlines are the joined lines behind one more newline. Where no line is longer than the
  limit, no batch is; and a line longer than the limit is a batch by itself.
\<close>

lemma batch_loop_join_from_empty:
  "lines \<noteq> [] \<Longrightarrow> last lines \<noteq> [] \<Longrightarrow>
   join_newline (batch_loop limit [] lines) = newline @ join_newline lines"
  using batch_loop_join [of "[]" lines limit] by (simp add: join_newline_Cons)

lemma batch_loop_length:
  "\<forall>line \<in> set lines. int (length line) \<le> limit \<Longrightarrow> int (length batch) \<le> limit \<Longrightarrow>
   \<forall>b \<in> set (batch_loop limit batch lines). int (length b) \<le> limit"
proof (induction lines arbitrary: batch)
  case Nil
  then show ?case by simp
next
  case (Cons line lines)
  show ?case
  proof (cases "int (length (batch @ newline @ line)) \<le> limit")
    case True
    then show ?thesis using Cons.IH [of "batch @ newline @ line"] Cons.prems
      by (simp add: Let_def)
  next
    case False
    then show ?thesis using Cons.IH [of line] Cons.prems
      by (simp add: Let_def)
  qed
qed

lemma batch_loop_oversized_accumulator:
  "int (length batch) > limit \<Longrightarrow> batch \<noteq> [] \<Longrightarrow> batch \<in> set (batch_loop limit batch lines)"
  by (cases lines) (auto simp: Let_def)

lemma batch_loop_oversized_line:
  "line \<in> set lines \<Longrightarrow> int (length line) > limit \<Longrightarrow> line \<noteq> [] \<Longrightarrow>
   line \<in> set (batch_loop limit batch lines)"
proof (induction lines arbitrary: batch)
  case Nil
  then show ?case by simp
next
  case (Cons l lines)
  show ?case
  proof (cases "l = line")
    case True
    then show ?thesis using Cons.prems batch_loop_oversized_accumulator [of limit line lines]
      by (auto simp: Let_def)
  next
    case False
    then show ?thesis using Cons by (auto simp: Let_def)
  qed
qed

lemma header_line_not_empty: "header_line r options \<noteq> []"
  by (simp add: header_line_def newline_def)

lemma header_length: "length (header_line empty_report options) = 170"
  if "max_rows options = 10" "min_score options = 25" for options
  using that
  by (simp add: header_line_def empty_report_def str_int_def digits.simps
        strftime_ymd_def zero_pad_def window_after_def window_before_def newline_def
        sorted_user_results_def get_user_results_def)

lemma empty_report_lines:
  "build_summary_lines empty_report options = [header_line empty_report options]"
  by (simp add: build_summary_lines_def sorted_user_results_def get_user_results_def
        empty_report_def)

section \<open>The ranking\<close>

lemma ranked_rows_prefix: "prefix (ranked_rows options i rows) rows"
  by (induction options i rows rule: ranked_rows.induct) simp_all

lemma ranked_rows_length:
  "int (length (ranked_rows options i rows)) \<le> max 0 (max_rows options - i)"
  by (induction options i rows rule: ranked_rows.induct) auto

lemma ranked_rows_min_score:
  "row \<in> set (ranked_rows options i rows) \<Longrightarrow> min_score options \<le> fst (snd row)"
  by (induction options i rows rule: ranked_rows.induct) (auto split: if_splits)

lemma sorted_user_results_descending:
  "sorted_wrt (\<lambda>x y. x \<ge> y) (map (\<lambda>row. fst (snd row)) (sorted_user_results r))"
proof -
  have "sorted (map (\<lambda>row. - fst (snd row)) (sorted_user_results r))"
    unfolding sorted_user_results_def by (rule sorted_sort_key)
  then show ?thesis by (simp add: sorted_wrt_map)
qed

lemma sorted_wrt_prefix: "prefix xs ys \<Longrightarrow> sorted_wrt R ys \<Longrightarrow> sorted_wrt R xs"
  by (auto simp: prefix_def sorted_wrt_append)

lemma sorted_user_results_stable:
  "filter (\<lambda>row. fst (snd row) = k) (sorted_user_results r)
   = filter (\<lambda>row. fst (snd row) = k) (get_user_results r)"
proof -
  have "filter (\<lambda>row. - fst (snd row) = - k) (sorted_user_results r)
        = filter (\<lambda>row. - fst (snd row) = - k) (get_user_results r)"
    unfolding sorted_user_results_def by (rule sort_key_stable)
  then show ?thesis by simp
qed

lemma tied_report_rows:
  "ranked_rows top_options 0 (sorted_user_results tied_report) = [(2, 30, 1), (1, 22, 2), (3, 22, 1)]"
  "get_user_results tied_report = [(1, 22, 2), (2, 30, 1), (3, 22, 1), (4, 3, 1)]"
  by (simp_all add: sorted_user_results_def get_user_results_def tied_report_def top_options_def)

section \<open>The scan\<close>

subsection \<open>Fields after a step\<close>

lemma commit_fields [simp]:
  "self_channel_states (commit s c) = s"
  "states_log (commit s c) = states_log c @ [s]"
  "progress_calls (commit s c) = progress_calls c"
  "history_calls (commit s c) = history_calls c"
  "self_user_table (commit s c) = self_user_table c"
  "self_progress_message (commit s c) = self_progress_message c"
  "self_after (commit s c) = self_after c"
  "self_before (commit s c) = self_before c"
  "self_built_at (commit s c) = self_built_at c"
  by (simp_all add: commit_def)

lemma assign_fields [simp]:
  "self_channel_states (assign i f c) = (self_channel_states c)[i := f (self_channel_states c ! i)]"
  "states_log (assign i f c) = states_log c @ [(self_channel_states c)[i := f (self_channel_states c ! i)]]"
  "progress_calls (assign i f c) = progress_calls c"
  "history_calls (assign i f c) = history_calls c"
  "self_user_table (assign i f c) = self_user_table c"
  "self_progress_message (assign i f c) = self_progress_message c"
  "self_after (assign i f c) = self_after c"
  "self_before (assign i f c) = self_before c"
  "self_built_at (assign i f c) = self_built_at c"
  by (simp_all add: assign_def)

lemma update_fields [simp]:
  "self_channel_states (update c) = self_channel_states c"
  "states_log (update c) = states_log c"
  "history_calls (update c) = history_calls c"
  "self_user_table (update c) = self_user_table c"
  "self_progress_message (update c) \<noteq> None"
  "self_after (update c) = self_after c"
  "self_before (update c) = self_before c"
  "self_built_at (update c) = self_built_at c"
  by (simp_all add: update_def Let_def split: option.splits)

lemma update_progress_calls:
  "map rendered (progress_calls (update c)) = map rendered (progress_calls c) @ [self_channel_states c]"
  by (simp add: update_def Let_def split: option.splits)

subsection \<open>Status sequences\<close>

lemma remdups_adj_snoc:
  "xs \<noteq> [] \<Longrightarrow>
   remdups_adj (xs @ [y]) = (if last xs = y then remdups_adj xs else remdups_adj xs @ [y])"
proof -
  assume "xs \<noteq> []"
  then obtain ys x where xs: "xs = ys @ [x]" by (cases xs rule: rev_cases) auto
  show ?thesis unfolding xs using remdups_adj_append_two [of ys x y] by simp
qed

lemma status_sequence_snoc:
  "log \<noteq> [] \<Longrightarrow>
   status_sequence j (log @ [s]) =
     (if status (last log ! j) = status (s ! j) then status_sequence j log
      else status_sequence j log @ [status (s ! j)])"
  by (simp add: status_sequence_def remdups_adj_snoc last_map)

lemma status_sequence_members:
  "states \<in> set log \<Longrightarrow> status (states ! i) \<in> set (status_sequence i log)"
  by (simp add: status_sequence_def)

subsection \<open>Each step keeps the invariants\<close>

lemma log_ok_assign:
  assumes "log_ok c"
    and "status (f (self_channel_states c ! i)) = COMPLETE \<longrightarrow> counted (f (self_channel_states c ! i))"
  shows "log_ok (assign i f c)"
proof -
  let ?cs = "self_channel_states c"
  have "?cs \<in> set (states_log c)" using assms(1) unfolding log_ok_def by (metis last_in_set)
  then have old: "\<forall>state \<in> set ?cs. status state = COMPLETE \<longrightarrow> counted state"
    using assms(1) unfolding log_ok_def by blast
  have "\<forall>state \<in> set (?cs[i := f (?cs ! i)]). status state = COMPLETE \<longrightarrow> counted state"
    using old assms(2) set_update_subset_insert [of ?cs i "f (?cs ! i)"] by auto
  then show ?thesis using assms(1) unfolding log_ok_def by auto
qed

lemma log_ok_current: "log_ok c \<Longrightarrow> self_channel_states c \<in> set (states_log c)"
  unfolding log_ok_def by (metis last_in_set)

lemma log_ok_update: "log_ok c \<Longrightarrow> log_ok (update c)"
  using log_ok_current [of c] unfolding log_ok_def
  by (auto simp: update_def Let_def split: option.splits)

lemma log_ok_history_calls: "log_ok (c\<lparr>history_calls := h\<rparr>) = log_ok c"
  unfolding log_ok_def by simp

lemma log_ok_user_table: "log_ok (c\<lparr>self_user_table := t\<rparr>) = log_ok c"
  unfolding log_ok_def by simp

lemma finished_channel_assign:
  "log_ok c \<Longrightarrow> finished_channel j c \<Longrightarrow> j \<noteq> i \<Longrightarrow> finished_channel j (assign i f c)"
  unfolding finished_channel_def log_ok_def by (simp add: status_sequence_snoc)

lemma untouched_channel_assign:
  "log_ok c \<Longrightarrow> untouched_channel chans j c \<Longrightarrow> j \<noteq> i \<Longrightarrow> untouched_channel chans j (assign i f c)"
  unfolding untouched_channel_def log_ok_def by (simp add: status_sequence_snoc)

lemma others_ok_assign:
  assumes "others_ok chans k c"
    and "status (f (self_channel_states c ! k)) = COMPLETE \<longrightarrow> counted (f (self_channel_states c ! k))"
  shows "others_ok chans k (assign k f c)"
  using assms unfolding others_ok_def
  by (auto intro: log_ok_assign finished_channel_assign untouched_channel_assign)

lemma others_ok_update: "others_ok chans k c \<Longrightarrow> others_ok chans k (update c)"
  unfolding others_ok_def by (simp add: log_ok_update finished_channel_def untouched_channel_def)

lemma others_ok_history_calls: "others_ok chans k (c\<lparr>history_calls := h\<rparr>) = others_ok chans k c"
  unfolding others_ok_def by (simp add: log_ok_history_calls finished_channel_def untouched_channel_def)

lemma others_ok_user_table: "others_ok chans k (c\<lparr>self_user_table := t\<rparr>) = others_ok chans k c"
  unfolding others_ok_def by (simp add: log_ok_user_table finished_channel_def untouched_channel_def)

lemma scanning_snapshot_update:
  "k < n \<Longrightarrow> (replicate k COMPLETE @ replicate (n - k) INCOMPLETE)[k := IN_PROGRESS]
             = scanning_snapshot n k"
proof -
  assume "k < n"
  then have "n - k = Suc (n - Suc k)" by simp
  then show ?thesis by (simp add: scanning_snapshot_def list_update_append)
qed

lemma statuses_between:
  assumes "between_channels chans k c"
  shows "map status (self_channel_states c)
         = replicate k COMPLETE @ replicate (length chans - k) INCOMPLETE"
proof (rule nth_equalityI)
  show "length (map status (self_channel_states c))
        = length (replicate k COMPLETE @ replicate (length chans - k) INCOMPLETE)"
    using assms unfolding between_channels_def by simp
next
  fix i assume "i < length (map status (self_channel_states c))"
  then have i: "i < length chans" using assms unfolding between_channels_def by simp
  show "map status (self_channel_states c) ! i
        = (replicate k COMPLETE @ replicate (length chans - k) INCOMPLETE) ! i"
  proof (cases "i < k")
    case True
    then show ?thesis using assms i unfolding between_channels_def finished_channel_def
      by (simp add: nth_append)
  next
    case False
    then have "untouched_channel chans i c" using assms i unfolding between_channels_def by simp
    then show ?thesis using False assms i
      unfolding between_channels_def untouched_channel_def new_channel_state_def
      by (simp add: nth_append)
  qed
qed

lemma between_start:
  "between_channels chans 0 (update (reset utcnow chans a b))"
proof -
  let ?c = "reset utcnow chans a b"
  have log: "log_ok ?c"
    unfolding log_ok_def reset_def by (auto simp: new_channel_state_def)
  have un: "untouched_channel chans j (update ?c)" if "j < length chans" for j
    using that unfolding untouched_channel_def reset_def
    by (simp add: status_sequence_def new_channel_state_def)
  have pr: "map (map status \<circ> rendered) (progress_calls (update ?c))
            = [replicate (length chans) INCOMPLETE]"
    unfolding update_def reset_def
    by (simp add: Let_def new_channel_state_def comp_def map_replicate_const)
  show ?thesis
    unfolding between_channels_def using log_ok_update [OF log] un pr
    by (simp add: reset_def)
qed

lemma between_others_ok:
  "between_channels chans k c \<Longrightarrow> k < length chans \<Longrightarrow> others_ok chans k c"
  unfolding between_channels_def others_ok_def by simp

lemma status_sequence_assign:
  assumes "log_ok c" "i < length (self_channel_states c)"
  shows "status_sequence i (states_log c @ [(self_channel_states c)[i := x]]) =
           (if status x = status (self_channel_states c ! i)
            then status_sequence i (states_log c)
            else status_sequence i (states_log c) @ [status x])"
  using assms unfolding log_ok_def by (auto simp: status_sequence_snoc)

lemma scan_channel_prelude:
  assumes b: "between_channels chans k c" and k: "k < length chans"
  defines "ca \<equiv> assign k (\<lambda>state. state\<lparr>status := IN_PROGRESS\<rparr>) c"
  defines "c1 \<equiv> update ca"
  defines "c2 \<equiv> c1\<lparr>history_calls := history_calls c1 @ [k]\<rparr>"
  defines "c3 \<equiv> assign k (\<lambda>state. state\<lparr>total_messages := Some 0\<rparr>) c2"
  defines "c4 \<equiv> assign k (\<lambda>state. state\<lparr>total_message_length := Some 0\<rparr>) c3"
  shows "within_channel chans k c4"
    and "channel (self_channel_states c1 ! k) = chans ! k"
proof -
  let ?n = "length chans"
  have len: "length (self_channel_states c) = ?n" using b unfolding between_channels_def by simp
  have un: "untouched_channel chans k c" using b k unfolding between_channels_def by simp
  then have sk: "self_channel_states c ! k = new_channel_state (chans ! k)"
    and seq: "status_sequence k (states_log c) = [INCOMPLETE]"
    unfolding untouched_channel_def by simp_all
  have o: "others_ok chans k c" using b k by (rule between_others_ok)
  have oa: "others_ok chans k ca" unfolding ca_def using o by (rule others_ok_assign) simp
  have ska: "self_channel_states ca ! k = (new_channel_state (chans ! k))\<lparr>status := IN_PROGRESS\<rparr>"
    unfolding ca_def using k len sk by simp
  have seqa: "status_sequence k (states_log ca) = [INCOMPLETE, IN_PROGRESS]"
    unfolding ca_def using o k len sk seq
    by (simp add: status_sequence_assign others_ok_def new_channel_state_def)
  have o1: "others_ok chans k c1" unfolding c1_def using oa by (rule others_ok_update)
  have o2: "others_ok chans k c2" unfolding c2_def using o1 by (simp add: others_ok_history_calls)
  have sk2: "self_channel_states c2 ! k = (new_channel_state (chans ! k))\<lparr>status := IN_PROGRESS\<rparr>"
    unfolding c2_def c1_def using ska by simp
  have len2: "length (self_channel_states c2) = ?n"
    unfolding c2_def c1_def ca_def using len by simp
  have seq2: "status_sequence k (states_log c2) = [INCOMPLETE, IN_PROGRESS]"
    unfolding c2_def c1_def using seqa by simp
  have o3: "others_ok chans k c3" unfolding c3_def using o2
    by (rule others_ok_assign) (simp add: sk2)
  have sk3: "self_channel_states c3 ! k
             = (new_channel_state (chans ! k))\<lparr>status := IN_PROGRESS, total_messages := Some 0\<rparr>"
    unfolding c3_def using k len2 sk2 by simp
  have len3: "length (self_channel_states c3) = ?n" unfolding c3_def using len2 by simp
  have seq3: "status_sequence k (states_log c3) = [INCOMPLETE, IN_PROGRESS]"
    unfolding c3_def using o2 k len2 sk2 seq2
    by (simp add: status_sequence_assign others_ok_def)
  have o4: "others_ok chans k c4" unfolding c4_def using o3
    by (rule others_ok_assign) (simp add: sk3)
  have sk4: "self_channel_states c4 ! k
             = (new_channel_state (chans ! k))
                 \<lparr>status := IN_PROGRESS, total_messages := Some 0, total_message_length := Some 0\<rparr>"
    unfolding c4_def using k len3 sk3 by simp
  have seq4: "status_sequence k (states_log c4) = [INCOMPLETE, IN_PROGRESS]"
    unfolding c4_def using o3 k len3 sk3 seq3
    by (simp add: status_sequence_assign others_ok_def)
  have "map status (self_channel_states ca) = (map status (self_channel_states c))[k := IN_PROGRESS]"
    unfolding ca_def by (simp add: map_update)
  then have sta: "map status (self_channel_states ca) = scanning_snapshot ?n k"
    using statuses_between [OF b] k by (simp add: scanning_snapshot_update)
  have "map (map status) (map rendered (progress_calls c1))
        = map (map status) (map rendered (progress_calls c)) @ [scanning_snapshot ?n k]"
    unfolding c1_def using sta by (simp add: update_progress_calls ca_def)
  then have pr: "map (map status \<circ> rendered) (progress_calls c4)
                 = replicate ?n INCOMPLETE # map (scanning_snapshot ?n) [0..<Suc k]"
    using b unfolding between_channels_def c4_def c3_def c2_def by simp
  have hc: "history_calls c4 = [0..<Suc k]"
    using b unfolding between_channels_def c4_def c3_def c2_def c1_def ca_def by simp
  have pm: "self_progress_message c4 \<noteq> None"
    unfolding c4_def c3_def c2_def c1_def by simp
  show "within_channel chans k c4"
    unfolding within_channel_def using o4 sk4 seq4 pm pr hc
    by (simp add: counted_def new_channel_state_def)
  show "channel (self_channel_states c1 ! k) = chans ! k"
    unfolding c1_def using ska by (simp add: new_channel_state_def)
qed

lemma within_channel_assign:
  assumes w: "within_channel chans k c"
    and f: "status (f (self_channel_states c ! k)) = IN_PROGRESS"
           "counted (f (self_channel_states c ! k))"
  shows "within_channel chans k (assign k f c)"
proof -
  have o: "others_ok chans k c" using w unfolding within_channel_def by simp
  then have k: "k < length (self_channel_states c)" and log: "log_ok c"
    unfolding others_ok_def by simp_all
  have o': "others_ok chans k (assign k f c)" using o by (rule others_ok_assign) (simp add: f)
  have "status_sequence k (states_log (assign k f c)) = [INCOMPLETE, IN_PROGRESS]"
    using w f log k unfolding within_channel_def by (simp add: status_sequence_assign)
  then show ?thesis using w o' f k unfolding within_channel_def by simp
qed

lemma within_channel_user_table:
  "within_channel chans k (c\<lparr>self_user_table := t\<rparr>) = within_channel chans k c"
  unfolding within_channel_def by (simp add: others_ok_user_table)

lemma scan_message_within:
  assumes w: "within_channel chans k c"
  shows "\<exists>c'. scan_message k message c = (None, c') \<and> within_channel chans k c'"
proof (cases "content message")
  case None
  then show ?thesis using w by (simp add: scan_message_def)
next
  case (Some body)
  from w obtain n l where n: "total_messages (self_channel_states c ! k) = Some n"
    and l: "total_message_length (self_channel_states c ! k) = Some l"
    and st: "status (self_channel_states c ! k) = IN_PROGRESS"
    unfolding within_channel_def counted_def by auto
  from w have k: "k < length (self_channel_states c)"
    unfolding within_channel_def others_ok_def by simp
  let ?c1 = "assign k (\<lambda>state. state\<lparr>total_messages := Some (n + 1)\<rparr>) c"
  have w1: "within_channel chans k ?c1"
    using w by (rule within_channel_assign) (simp_all add: st l counted_def)
  have l1: "total_message_length (self_channel_states ?c1 ! k) = Some l"
    and st1: "status (self_channel_states ?c1 ! k) = IN_PROGRESS"
    and n1: "total_messages (self_channel_states ?c1 ! k) = Some (n + 1)"
    using k l st by simp_all
  let ?c2 = "assign k (\<lambda>state. state\<lparr>total_message_length := Some (l + int (length body))\<rparr>) ?c1"
  have w2: "within_channel chans k ?c2"
    using w1 by (rule within_channel_assign) (simp_all add: k st l counted_def)
  show ?thesis
    using Some n l1 w2 unfolding scan_message_def Let_def
    by (simp add: within_channel_user_table)
qed

lemma scan_history_within:
  "within_channel chans k c \<Longrightarrow>
   \<exists>c'. scan_history k h c = (if raises h then Some SourceFetchError else None, c')
        \<and> within_channel chans k c'"
proof (induction h arbitrary: c)
  case Exhausted
  then show ?case by simp
next
  case Raises
  then show ?case by simp
next
  case (Yields message rest)
  from scan_message_within [OF Yields.prems, of message]
  obtain c1 where m: "scan_message k message c = (None, c1)" and w1: "within_channel chans k c1"
    by blast
  from Yields.IH [OF w1] show ?case using m by simp
qed

lemma within_channel_complete:
  assumes w: "within_channel chans k c"
  shows "between_channels chans (Suc k) (assign k (\<lambda>state. state\<lparr>status := COMPLETE\<rparr>) c)"
proof -
  let ?c' = "assign k (\<lambda>state. state\<lparr>status := COMPLETE\<rparr>) c"
  have o: "others_ok chans k c" using w unfolding within_channel_def by simp
  then have k: "k < length (self_channel_states c)" and log: "log_ok c"
    and len: "length (self_channel_states c) = length chans"
    unfolding others_ok_def by simp_all
  have cnt: "counted (self_channel_states c ! k)" and st: "status (self_channel_states c ! k) = IN_PROGRESS"
    using w unfolding within_channel_def by simp_all
  have o': "others_ok chans k ?c'"
    using o by (rule others_ok_assign) (use cnt in \<open>simp add: counted_def\<close>)
  have fin: "finished_channel k ?c'"
    unfolding finished_channel_def using w k log cnt st
    by (simp add: status_sequence_assign within_channel_def counted_def)
  have "\<forall>j<Suc k. finished_channel j ?c'"
    using o' fin unfolding others_ok_def by (auto simp: less_Suc_eq)
  moreover have "\<forall>j. Suc k \<le> j \<and> j < length chans \<longrightarrow> untouched_channel chans j ?c'"
    using o' unfolding others_ok_def by auto
  ultimately show ?thesis
    using o' w unfolding between_channels_def others_ok_def within_channel_def by simp
qed

lemma scan_channel_between:
  assumes b: "between_channels chans k c" and k: "k < length chans"
  shows "\<exists>c'. scan_channel k c
              = (if raises (history (chans ! k)) then Some SourceFetchError else None, c')
             \<and> (if raises (history (chans ! k)) then within_channel chans k c'
                  else between_channels chans (Suc k) c')"
proof -
  let ?c1 = "update (assign k (\<lambda>state. state\<lparr>status := IN_PROGRESS\<rparr>) c)"
  let ?c4 = "assign k (\<lambda>state. state\<lparr>total_message_length := Some 0\<rparr>)
               (assign k (\<lambda>state. state\<lparr>total_messages := Some 0\<rparr>)
                  (?c1\<lparr>history_calls := history_calls ?c1 @ [k]\<rparr>))"
  have w4: "within_channel chans k ?c4" and ch: "channel (self_channel_states ?c1 ! k) = chans ! k"
    using scan_channel_prelude [OF b k] by simp_all
  from scan_history_within [OF w4, of "history (chans ! k)"]
  obtain c5 where h: "scan_history k (history (chans ! k)) ?c4
                      = (if raises (history (chans ! k)) then Some SourceFetchError else None, c5)"
    and w5: "within_channel chans k c5" by blast
  show ?thesis
  proof (cases "raises (history (chans ! k))")
    case True
    then show ?thesis using h w5 ch unfolding scan_channel_def Let_def by simp
  next
    case False
    then show ?thesis using h within_channel_complete [OF w5] ch
      unfolding scan_channel_def Let_def by simp
  qed
qed

lemma scan_channels_between:
  assumes "between_channels chans k c"
  shows "(\<exists>c'. scan_channels [k..<length chans] c = (None, c')
              \<and> between_channels chans (length chans) c'
              \<and> (\<forall>j. k \<le> j \<and> j < length chans \<longrightarrow> \<not> raises (history (chans ! j))))
       \<or> (\<exists>m c'. k \<le> m \<and> m < length chans
              \<and> scan_channels [k..<length chans] c = (Some SourceFetchError, c')
              \<and> within_channel chans m c'
              \<and> raises (history (chans ! m))
              \<and> (\<forall>j. k \<le> j \<and> j < m \<longrightarrow> \<not> raises (history (chans ! j))))"
  using assms
proof (induction "length chans - k" arbitrary: k c)
  case 0
  then have "k = length chans" unfolding between_channels_def by simp
  then show ?case using "0.prems" by auto
next
  case (Suc d)
  then have k: "k < length chans" by simp
  then have upt: "[k..<length chans] = k # [Suc k..<length chans]" by (rule upt_conv_Cons)
  from scan_channel_between [OF Suc.prems k]
  obtain c1 where sc: "scan_channel k c
                       = (if raises (history (chans ! k)) then Some SourceFetchError else None, c1)"
    and post: "if raises (history (chans ! k)) then within_channel chans k c1
               else between_channels chans (Suc k) c1"
    by blast
  show ?case
  proof (cases "raises (history (chans ! k))")
    case True
    then have "k \<le> k \<and> k < length chans
               \<and> scan_channels [k..<length chans] c = (Some SourceFetchError, c1)
               \<and> within_channel chans k c1 \<and> raises (history (chans ! k))
               \<and> (\<forall>j. k \<le> j \<and> j < k \<longrightarrow> \<not> raises (history (chans ! j)))"
      using sc post k upt by auto
    then show ?thesis by blast
  next
    case False
    then have b1: "between_channels chans (Suc k) c1" using post by simp
    have d: "d = length chans - Suc k" using Suc.hyps(2) by simp
    have step: "scan_channels [k..<length chans] c = scan_channels [Suc k..<length chans] c1"
      using sc False upt by simp
    have lo: "(k \<le> j \<and> j < m) = (j = k \<or> (Suc k \<le> j \<and> j < m))" if "k < m" for j m
      using that by auto
    from Suc.hyps(1) [OF d b1] show ?thesis
    proof (elim disjE exE conjE)
      fix c'
      assume "scan_channels [Suc k..<length chans] c1 = (None, c')"
        "between_channels chans (length chans) c'"
        "\<forall>j. Suc k \<le> j \<and> j < length chans \<longrightarrow> \<not> raises (history (chans ! j))"
      then show ?thesis using step False k by (intro disjI1 exI [of _ c']) (auto simp: lo)
    next
      fix m c'
      assume "Suc k \<le> m" "m < length chans"
        "scan_channels [Suc k..<length chans] c1 = (Some SourceFetchError, c')"
        "within_channel chans m c'" "raises (history (chans ! m))"
        "\<forall>j. Suc k \<le> j \<and> j < m \<longrightarrow> \<not> raises (history (chans ! j))"
      then show ?thesis using step False
        by (intro disjI2 exI [of _ m] exI [of _ c']) (auto simp: lo)
    qed
  qed
qed

lemma scan_message_window: "scan_message i message c = (e, c') \<Longrightarrow> same_window c c'"
  unfolding scan_message_def same_window_def Let_def
  by (auto split: option.splits)

lemma scan_history_window: "scan_history i h c = (e, c') \<Longrightarrow> same_window c c'"
proof (induction h arbitrary: c)
  case (Yields message rest)
  obtain e1 c1 where m: "scan_message i message c = (e1, c1)" by (cases "scan_message i message c")
  show ?case
  proof (cases e1)
    case None
    then show ?thesis using Yields m scan_message_window [OF m]
      by (auto simp: same_window_def)
  next
    case (Some err)
    then show ?thesis using Yields.prems m scan_message_window [OF m] by simp
  qed
qed (simp_all add: same_window_def)

lemma scan_channel_window: "scan_channel i c = (e, c') \<Longrightarrow> same_window c c'"
  unfolding scan_channel_def Let_def
  by (auto split: prod.splits option.splits dest!: scan_history_window simp: same_window_def)

lemma scan_channels_window: "scan_channels ps c = (e, c') \<Longrightarrow> same_window c c'"
proof (induction ps arbitrary: c)
  case Nil
  then show ?case by (simp add: same_window_def)
next
  case (Cons i ps)
  obtain e1 c1 where m: "scan_channel i c = (e1, c1)" by (cases "scan_channel i c")
  show ?case
  proof (cases e1)
    case None
    then show ?thesis using Cons m scan_channel_window [OF m]
      by (auto simp: same_window_def)
  next
    case (Some err)
    then show ?thesis using Cons.prems m scan_channel_window [OF m] by simp
  qed
qed

subsection \<open>The two ways a run ends\<close>

lemma build_cases:
  "(\<exists>c'. build utcnow chans a b
           = (Inr \<lparr>after = a, before = b, built_at = utcnow,
                   channel_states = self_channel_states c',
                   user_table = self_user_table c'\<rparr>, update c')
         \<and> between_channels chans (length chans) c'
         \<and> (\<forall>j < length chans. \<not> raises (history (chans ! j))))
   \<or> (\<exists>m c'. m < length chans
         \<and> build utcnow chans a b = (Inl SourceFetchError, c')
         \<and> within_channel chans m c'
         \<and> raises (history (chans ! m))
         \<and> (\<forall>j < m. \<not> raises (history (chans ! j))))"
proof -
  let ?c1 = "update (reset utcnow chans a b)"
  have len: "length (self_channel_states ?c1) = length chans" by (simp add: reset_def)
  have fr: "self_after c' = a \<and> self_before c' = b \<and> self_built_at c' = utcnow"
    if "scan_channels ps ?c1 = (e, c')" for ps e c'
    using scan_channels_window [OF that] by (simp add: same_window_def reset_def)
  from scan_channels_between [OF between_start [of chans utcnow a b]] show ?thesis
  proof (elim disjE exE conjE)
    fix c'
    assume s: "scan_channels [0..<length chans] ?c1 = (None, c')"
      and "between_channels chans (length chans) c'"
      and "\<forall>j. 0 \<le> j \<and> j < length chans \<longrightarrow> \<not> raises (history (chans ! j))"
    then show ?thesis using fr [OF s] len unfolding build_def Let_def
      by (intro disjI1 exI [of _ c']) simp
  next
    fix m c'
    assume "0 \<le> m" "m < length chans"
      "scan_channels [0..<length chans] ?c1 = (Some SourceFetchError, c')"
      "within_channel chans m c'" "raises (history (chans ! m))"
      "\<forall>j. 0 \<le> j \<and> j < m \<longrightarrow> \<not> raises (history (chans ! j))"
    then show ?thesis using len unfolding build_def Let_def
      by (intro disjI2 exI [of _ m] exI [of _ c']) simp
  qed
qed

lemma progress_statuses_complete_run:
  assumes "\<forall>h \<in> set chans. \<not> raises (history h)"
  shows "map (map status \<circ> rendered) (progress_calls (snd (build utcnow chans a b)))
         = replicate (length chans) INCOMPLETE
           # map (scanning_snapshot (length chans)) [0..<length chans]
           @ [replicate (length chans) COMPLETE]"
proof -
  let ?n = "length chans"
  from build_cases [of utcnow chans a b] show ?thesis
  proof (elim disjE exE conjE)
    fix c'
    assume bd: "build utcnow chans a b
                = (Inr \<lparr>after = a, before = b, built_at = utcnow,
                        channel_states = self_channel_states c',
                        user_table = self_user_table c'\<rparr>, update c')"
      and bt: "between_channels chans ?n c'"
    have "map status (self_channel_states c') = replicate ?n COMPLETE"
      using statuses_between [OF bt] by simp
    moreover have "map (map status) (map rendered (progress_calls c'))
                   = replicate ?n INCOMPLETE # map (scanning_snapshot ?n) [0..<?n]"
      using bt unfolding between_channels_def by simp
    ultimately show ?thesis using bd
      by (simp add: update_progress_calls flip: map_map)
  next
    fix m c'
    assume "m < ?n" "raises (history (chans ! m))"
    then show ?thesis using assms by (meson nth_mem)
  qed
qed

lemma progress_statuses_aborted_run:
  assumes "m < length chans"
    and "raises (history (chans ! m))"
    and "\<forall>j < m. \<not> raises (history (chans ! j))"
  shows "map (map status \<circ> rendered) (progress_calls (snd (build utcnow chans a b)))
         = replicate (length chans) INCOMPLETE
           # map (scanning_snapshot (length chans)) [0..<Suc m]"
proof -
  from build_cases [of utcnow chans a b] show ?thesis
  proof (elim disjE exE conjE)
    fix c'
    assume "\<forall>j < length chans. \<not> raises (history (chans ! j))"
    then show ?thesis using assms by simp
  next
    fix m' c'
    assume bd: "build utcnow chans a b = (Inl SourceFetchError, c')"
      and w: "within_channel chans m' c'"
      and r: "raises (history (chans ! m'))"
      and nr: "\<forall>j < m'. \<not> raises (history (chans ! j))"
    have "m' = m" using assms r nr by (meson linorder_neqE_nat)
    then show ?thesis using w bd unfolding within_channel_def by simp
  qed
qed

lemma run_status_sequences:
  "(\<forall>j < length chans. \<not> raises (history (chans ! j))) \<Longrightarrow> i < length chans \<Longrightarrow>
     \<not> isl (fst (build utcnow chans a b))
   \<and> status_sequence i (states_log (snd (build utcnow chans a b)))
       = [INCOMPLETE, IN_PROGRESS, COMPLETE]"
  "m < length chans \<Longrightarrow> raises (history (chans ! m)) \<Longrightarrow>
   \<forall>j < m. \<not> raises (history (chans ! j)) \<Longrightarrow> i < length chans \<Longrightarrow>
     isl (fst (build utcnow chans a b))
   \<and> status_sequence i (states_log (snd (build utcnow chans a b)))
       = (if i < m then [INCOMPLETE, IN_PROGRESS, COMPLETE]
          else if i = m then [INCOMPLETE, IN_PROGRESS] else [INCOMPLETE])"
proof -
  assume nr: "\<forall>j < length chans. \<not> raises (history (chans ! j))" and i: "i < length chans"
  from build_cases [of utcnow chans a b]
  show "\<not> isl (fst (build utcnow chans a b))
        \<and> status_sequence i (states_log (snd (build utcnow chans a b)))
            = [INCOMPLETE, IN_PROGRESS, COMPLETE]"
  proof (elim disjE exE conjE)
    fix c'
    assume bd: "build utcnow chans a b
                = (Inr \<lparr>after = a, before = b, built_at = utcnow,
                        channel_states = self_channel_states c',
                        user_table = self_user_table c'\<rparr>, update c')"
      and bt: "between_channels chans (length chans) c'"
    have "finished_channel i c'" using bt i unfolding between_channels_def by simp
    then show ?thesis using bd unfolding finished_channel_def by simp
  next
    fix m' c'
    assume "m' < length chans" "raises (history (chans ! m'))"
    then show ?thesis using nr by simp
  qed
next
  assume m: "m < length chans" and r: "raises (history (chans ! m))"
    and nr: "\<forall>j < m. \<not> raises (history (chans ! j))" and i: "i < length chans"
  from build_cases [of utcnow chans a b]
  show "isl (fst (build utcnow chans a b))
        \<and> status_sequence i (states_log (snd (build utcnow chans a b)))
            = (if i < m then [INCOMPLETE, IN_PROGRESS, COMPLETE]
               else if i = m then [INCOMPLETE, IN_PROGRESS] else [INCOMPLETE])"
  proof (elim disjE exE conjE)
    fix c'
    assume "\<forall>j < length chans. \<not> raises (history (chans ! j))"
    then show ?thesis using m r by simp
  next
    fix m' c'
    assume m': "m' < length chans"
      and bd: "build utcnow chans a b = (Inl SourceFetchError, c')"
      and w: "within_channel chans m' c'"
      and r': "raises (history (chans ! m'))"
      and nr': "\<forall>j < m'. \<not> raises (history (chans ! j))"
    have "m' = m" using r nr r' nr' by (meson linorder_neqE_nat)
    then have w: "within_channel chans m c'" using w by simp
    then show ?thesis using bd i
      unfolding within_channel_def others_ok_def finished_channel_def untouched_channel_def
      by auto
  qed
qed

lemma first_raising_channel:
  "\<exists>j < length chans. raises (history (chans ! j)) \<Longrightarrow>
   \<exists>m < length chans. raises (history (chans ! m)) \<and> (\<forall>j < m. \<not> raises (history (chans ! j)))"
proof -
  assume "\<exists>j < length chans. raises (history (chans ! j))"
  then obtain j where j: "j < length chans \<and> raises (history (chans ! j))" by blast
  define m where "m = (LEAST j. j < length chans \<and> raises (history (chans ! j)))"
  have "m < length chans \<and> raises (history (chans ! m))"
    unfolding m_def using j by (rule LeastI)
  moreover have "\<not> raises (history (chans ! k))" if "k < m" for k
    using not_less_Least [of k "\<lambda>j. j < length chans \<and> raises (history (chans ! j))"] that
      calculation unfolding m_def by auto
  ultimately show ?thesis by blast
qed

subsection \<open>The scenario of the specification, run\<close>

lemmas run_defs =
  build_def reset_def update_def scan_channel_def scan_message_def assign_def commit_def
  new_channel_state_def message_on_def Let_def

lemma scenario_run:
  "fst (build window_after [channel_A, channel_B] window_after window_before)
   = Inr \<lparr>after = window_after, before = window_before, built_at = window_after,
          channel_states =
            [\<lparr>help_channel = channel_A, channel = channel_A, status = COMPLETE,
              total_messages = Some 2, total_message_length = Some 15\<rparr>,
             \<lparr>help_channel = channel_B, channel = channel_B, status = COMPLETE,
              total_messages = Some 1, total_message_length = Some 7\<rparr>],
          user_table = [(1, [((2024, 1, 1), 15), ((2024, 1, 2), 7)])]\<rparr>"
proof -
  have A: "history channel_A = Yields (message_on 1 (Some ''hello''))
                 (Yields (message_on 1 (Some ''0123456789'')) Exhausted)"
    by (simp add: channel_A_def)
  have B: "history channel_B = Yields (message_on 2 (Some ''1234567'')) Exhausted"
    by (simp add: channel_B_def)
  show ?thesis
    by (simp add: run_defs A B upt_rec)
qed

subsection \<open>The author table\<close>

lemma record_value_add_daily:
  "record_value (add_daily k n user_record) k'
   = record_value user_record k' + (if k' = k then n else 0)"
  by (induction user_record) (auto simp: record_value_def)

lemma map_of_add_user_daily:
  "map_of (add_user_daily u k n t) u'
   = (if u' = u
      then Some (add_daily k n (case map_of t u of None \<Rightarrow> [] | Some user_record \<Rightarrow> user_record))
      else map_of t u')"
  by (induction t) auto

lemma daily_value_add_user_daily:
  "daily_value (add_user_daily u k n t) u' k'
   = daily_value t u' k' + (if u' = u \<and> k' = k then n else 0)"
proof (cases "u' = u")
  case True
  show ?thesis
  proof (cases "map_of t u")
    case None
    then show ?thesis using True record_value_add_daily [of k n "[]" k']
      by (simp add: daily_value_def map_of_add_user_daily record_value_def)
  next
    case (Some r0)
    then show ?thesis using True record_value_add_daily [of k n r0 k']
      by (simp add: daily_value_def map_of_add_user_daily record_value_def)
  qed
next
  case False
  then show ?thesis by (simp add: daily_value_def map_of_add_user_daily)
qed

lemma scan_message_effect:
  assumes "i < length (self_channel_states c)"
    and "total_messages (self_channel_states c ! i) = Some n"
    and "total_message_length (self_channel_states c ! i) = Some l"
  shows "(\<forall>body. content message = Some body \<longrightarrow>
            fst (scan_message i message c) = None
          \<and> total_messages (self_channel_states (snd (scan_message i message c)) ! i)
              = Some (n + 1)
          \<and> total_message_length (self_channel_states (snd (scan_message i message c)) ! i)
              = Some (l + int (length body))
          \<and> self_user_table (snd (scan_message i message c))
              = add_user_daily (author_id message)
                  (year (created_at message), month (created_at message),
                   day (created_at message))
                  (int (length body)) (self_user_table c)
          \<and> (\<forall>u k. daily_value (self_user_table (snd (scan_message i message c))) u k
                   = daily_value (self_user_table c) u k
                     + (if u = author_id message
                           \<and> k = (year (created_at message), month (created_at message),
                                  day (created_at message))
                        then int (length body) else 0))
          \<and> nom_scan_message message (self_channel_states c ! i)
              = Inr ((self_channel_states c ! i)
                       \<lparr>total_messages := Some (n + 1),
                        total_message_length := Some (l + int (length body))\<rparr>))
       \<and> (content message = None \<longrightarrow>
            scan_message i message c = (None, c)
          \<and> nom_scan_message message (self_channel_states c ! i)
              = Inr (self_channel_states c ! i))"
  using assms
  by (simp add: scan_message_def nom_scan_message_def Let_def daily_value_add_user_daily)

section \<open>The claims\<close>

text \<open>
  C1. The claim: for non-empty lines none longer than the limit, the batches joined by
  newlines give back the joined lines. The loop starts from the empty accumulator and puts a
  newline between the accumulator and every line, the first one included, so the first batch
  begins with a newline. On the report with no author, whose only line is the header (170
  characters, limit 2000), the single batch is the header behind a newline; so is the single
  batch of the other context for one channel state. The joined batches differ from the joined
  lines.
\<close>

theorem batches_do_not_round_trip:
  "batch_summary_text empty_report wide_options
     = [newline @ header_line empty_report wide_options]
   \<and> join_newline (batch_summary_text empty_report wide_options)
     = newline @ join_newline (build_summary_lines empty_report wide_options)
   \<and> join_newline (batch_summary_text empty_report wide_options)
     \<noteq> join_newline (build_summary_lines empty_report wide_options)
   \<and> nom_batch_summary_text 2000 [scanned_state] = [newline @ ''#A: 2 (15)'']
   \<and> join_newline (nom_build_summary_lines [scanned_state]) = ''#A: 2 (15)''"
proof -
  have "length (header_line empty_report wide_options) = 170"
    by (rule header_length) (simp_all add: wide_options_def)
  then have b: "batch_summary_text empty_report wide_options
                = [newline @ header_line empty_report wide_options]"
    by (simp add: batch_summary_text_def empty_report_lines wide_options_def newline_def Let_def)
  have n: "nom_build_summary_lines [scanned_state] = [''#A: 2 (15)'']"
    by (simp add: nom_build_summary_lines_def scanned_state_def channel_A_def
          str_optional_int_def str_int_def digits.simps)
  have nb: "nom_batch_summary_text 2000 [scanned_state] = [newline @ ''#A: 2 (15)'']"
    unfolding nom_batch_summary_text_def n by (simp add: newline_def Let_def)
  show ?thesis using b n nb by (simp add: empty_report_lines newline_def)
qed

text \<open>
  C2. The progress calls of a run, read as statuses. When no history raises: all incomplete;
  then, for each channel in input order, that channel in progress with the earlier ones
  complete and the later ones incomplete; then all complete. That is two more calls than
  channels: \<^verbatim>\<open>build\<close> does not call \<^verbatim>\<open>update\<close> when it marks a channel complete. When the
  history at position \<open>m\<close> is the first to raise, the calls are the same up to the one that
  shows \<open>m\<close> in progress, and that one is the last.
\<close>

theorem progress_snapshot_sequence:
  "((\<forall>h \<in> set chans. \<not> raises (history h)) \<longrightarrow>
      map (map status \<circ> rendered) (progress_calls (snd (build utcnow chans a b)))
      = replicate (length chans) INCOMPLETE
        # map (scanning_snapshot (length chans)) [0..<length chans]
        @ [replicate (length chans) COMPLETE])
   \<and> (\<forall>m. m < length chans \<and> raises (history (chans ! m))
            \<and> (\<forall>j < m. \<not> raises (history (chans ! j))) \<longrightarrow>
      map (map status \<circ> rendered) (progress_calls (snd (build utcnow chans a b)))
      = replicate (length chans) INCOMPLETE
        # map (scanning_snapshot (length chans)) [0..<Suc m])"
  using progress_statuses_complete_run [of chans utcnow a b]
    progress_statuses_aborted_run [of _ chans utcnow a b]
  by blast

text \<open>
  For the two channels of the scenario these are four calls; with a failing channel between
  them, three.
\<close>

theorem progress_snapshot_sequence_witness:
  "\<not> raises (history channel_A) \<and> \<not> raises (history channel_B)
   \<and> map (map status \<circ> rendered)
       (progress_calls (snd (build window_after [channel_A, channel_B] window_after window_before)))
     = [[INCOMPLETE, INCOMPLETE], [IN_PROGRESS, INCOMPLETE],
        [COMPLETE, IN_PROGRESS], [COMPLETE, COMPLETE]]
   \<and> raises (history channel_failing)
   \<and> map (map status \<circ> rendered)
       (progress_calls (snd (build window_after [channel_A, channel_failing, channel_B]
          window_after window_before)))
     = [[INCOMPLETE, INCOMPLETE, INCOMPLETE], [IN_PROGRESS, INCOMPLETE, INCOMPLETE],
        [COMPLETE, IN_PROGRESS, INCOMPLETE]]"
proof -
  have h: "\<not> raises (history channel_A)" "\<not> raises (history channel_B)"
    "raises (history channel_failing)"
    by (simp_all add: channel_A_def channel_B_def channel_failing_def)
  have f: "(1::nat) < length [channel_A, channel_failing, channel_B]
           \<and> raises (history ([channel_A, channel_failing, channel_B] ! 1))
           \<and> (\<forall>j < (1::nat). \<not> raises (history ([channel_A, channel_failing, channel_B] ! j)))"
    using h by simp
  have c: "map (map status \<circ> rendered)
       (progress_calls (snd (build window_after [channel_A, channel_B] window_after window_before)))
     = replicate (length [channel_A, channel_B]) INCOMPLETE
        # map (scanning_snapshot (length [channel_A, channel_B])) [0..<length [channel_A, channel_B]]
        @ [replicate (length [channel_A, channel_B]) COMPLETE]"
    using h progress_snapshot_sequence [of "[channel_A, channel_B]"
        window_after window_after window_before]
    by simp
  have "\<forall>m. m < length [channel_A, channel_failing, channel_B]
            \<and> raises (history ([channel_A, channel_failing, channel_B] ! m))
            \<and> (\<forall>j < m. \<not> raises (history ([channel_A, channel_failing, channel_B] ! j))) \<longrightarrow>
      map (map status \<circ> rendered)
        (progress_calls (snd (build window_after [channel_A, channel_failing, channel_B]
           window_after window_before)))
      = replicate (length [channel_A, channel_failing, channel_B]) INCOMPLETE
        # map (scanning_snapshot (length [channel_A, channel_failing, channel_B])) [0..<Suc m]"
    using progress_snapshot_sequence [of "[channel_A, channel_failing, channel_B]"
        window_after window_after window_before]
    by (rule conjunct2)
  then have d: "map (map status \<circ> rendered)
        (progress_calls (snd (build window_after [channel_A, channel_failing, channel_B]
           window_after window_before)))
      = replicate (length [channel_A, channel_failing, channel_B]) INCOMPLETE
        # map (scanning_snapshot (length [channel_A, channel_failing, channel_B])) [0..<Suc 1]"
    using f by blast
  show ?thesis
    using h c d by (simp add: scanning_snapshot_def upt_rec numeral_2_eq_2 numeral_3_eq_3)
qed

text \<open>The five snapshots of the claim are not what the two channels give.\<close>

theorem two_channels_give_four_snapshots:
  "map (map status \<circ> rendered)
     (progress_calls (snd (build window_after [channel_A, channel_B] window_after window_before)))
   \<noteq> [[INCOMPLETE, INCOMPLETE], [IN_PROGRESS, INCOMPLETE], [COMPLETE, INCOMPLETE],
      [COMPLETE, IN_PROGRESS], [COMPLETE, COMPLETE]]
   \<and> length (progress_calls
        (snd (build window_after [channel_A, channel_B] window_after window_before))) = 4"
proof -
  have h: "\<forall>h \<in> set [channel_A, channel_B]. \<not> raises (history h)"
    by (simp add: channel_A_def channel_B_def)
  have "length (map (map status \<circ> rendered)
          (progress_calls (snd (build window_after [channel_A, channel_B]
             window_after window_before)))) = 4"
    unfolding progress_statuses_complete_run [OF h] by simp
  then show ?thesis by auto
qed

text \<open>
  C3. The claim: every batch is one or more consecutive lines joined by newlines. With the
  limit at 40 the header does not fit behind the newline the loop puts before it, so the empty
  accumulator is yielded: the first batch is empty, no join of one or more lines. With the
  limit at 2000 the only batch is the header behind a newline, which is not the header, the
  only line there is.
\<close>

theorem first_batch_is_no_join_of_lines:
  "build_summary_lines empty_report narrow_options = [header_line empty_report narrow_options]
   \<and> batch_summary_text empty_report narrow_options
     = [[], header_line empty_report narrow_options]
   \<and> batch_summary_text empty_report wide_options
     = [newline @ header_line empty_report wide_options]
   \<and> newline @ header_line empty_report wide_options \<noteq> header_line empty_report wide_options"
proof -
  have "length (header_line empty_report narrow_options) = 170"
    by (rule header_length) (simp_all add: narrow_options_def)
  then have a: "batch_summary_text empty_report narrow_options
                = [[], header_line empty_report narrow_options]"
    using header_line_not_empty [of empty_report narrow_options]
    by (simp add: batch_summary_text_def empty_report_lines narrow_options_def newline_def Let_def)
  have "length (header_line empty_report wide_options) = 170"
    by (rule header_length) (simp_all add: wide_options_def)
  then have b: "batch_summary_text empty_report wide_options
                = [newline @ header_line empty_report wide_options]"
    by (simp add: batch_summary_text_def empty_report_lines wide_options_def newline_def Let_def)
  show ?thesis using a b by (simp add: empty_report_lines newline_def)
qed

text \<open>
  C4. The claim: a message with no textual content leaves both counters of the channel and
  the author table as they were. The comment in the loop says as much, "Skip messages that
  don't have any content", but the guard under it skips only a content that is not a string.
  A message whose content is the empty string has no text and is not skipped: the run over a
  channel with one such message reports one message of length 0 for the channel, and the
  table has an entry for the author, with the day of the message at 0. (A message with a
  non-empty string is counted as the claim says, and a content that is not a string changes
  nothing: lemma \<open>scan_message_effect\<close>.)
\<close>

theorem empty_string_message_is_counted:
  "fst (build window_after [channel_attachment_only] window_after window_before)
   = Inr \<lparr>after = window_after, before = window_before, built_at = window_after,
          channel_states =
            [\<lparr>help_channel = channel_attachment_only, channel = channel_attachment_only,
              status = COMPLETE, total_messages = Some 1, total_message_length = Some 0\<rparr>],
          user_table = [(1, [((2024, 1, 1), 0)])]\<rparr>"
proof -
  have E: "history channel_attachment_only = Yields (message_on 1 (Some [])) Exhausted"
    by (simp add: channel_attachment_only_def)
  show ?thesis by (simp add: run_defs E)
qed

text \<open>
  C5. \<^verbatim>\<open>HelpChatSummaryOptions\<close> accepts every integer as \<^verbatim>\<open>split_length\<close>, positive or
  not, and stores it; \<^verbatim>\<open>summarize\<close> then batches and sends, one call for each batch and at
  least one.
\<close>

theorem options_are_not_validated:
  "HelpChatSummaryOptions_init sl mr ms = Inr \<lparr>split_length = sl, max_rows = mr, min_score = ms\<rparr>
   \<and> (\<exists>calls. summarize r sl mr ms = Inr calls
         \<and> length calls
             = length (batch_summary_text r \<lparr>split_length = sl, max_rows = mr, min_score = ms\<rparr>)
         \<and> calls \<noteq> [])"
proof -
  let ?o = "\<lparr>split_length = sl, max_rows = mr, min_score = ms\<rparr>"
  have "batch_summary_text r ?o \<noteq> []"
    unfolding batch_summary_text_def build_summary_lines_def
    by (rule batch_loop_nonempty) simp
  then obtain first_batch rest where b: "batch_summary_text r ?o = first_batch # rest"
    by (cases "batch_summary_text r ?o") auto
  show ?thesis using b
    by (simp add: summarize_def HelpChatSummaryOptions_init_def Let_def)
qed

text \<open>With \<^verbatim>\<open>split_length = 0\<close> the options are built and two embeds are sent.\<close>

theorem non_positive_split_length_is_accepted:
  "HelpChatSummaryOptions_init 0 10 25 = Inr \<lparr>split_length = 0, max_rows = 10, min_score = 25\<rparr>
   \<and> summarize empty_report 0 10 25
     = Inr [CtxReply ''The results are in:'' (make_summary_batch_embed empty_report 1 2 []),
            CtxSend (make_summary_batch_embed empty_report 2 2
              (header_line empty_report \<lparr>split_length = 0, max_rows = 10, min_score = 25\<rparr>))]"
  using header_line_not_empty [of empty_report "\<lparr>split_length = 0, max_rows = 10, min_score = 25\<rparr>"]
  by (simp add: summarize_def HelpChatSummaryOptions_init_def batch_summary_text_def
        empty_report_lines newline_def Let_def)

text \<open>
  C6. The rows after the header: their scores do not increase, there are at most
  \<^verbatim>\<open>max_rows\<close> of them (none when \<^verbatim>\<open>max_rows\<close> is negative), each has a score of at least
  \<^verbatim>\<open>min_score\<close>, and the rows of any one score are an initial part of the table's rows of
  that score, in the table's own order.
\<close>

theorem ranked_rows_ordered_capped_stable:
  "let rows = ranked_rows options 0 (sorted_user_results r) in
     build_summary_lines r options = header_line r options # map row_line rows
   \<and> sorted_wrt (\<lambda>x y. x \<ge> y) (map (\<lambda>row. fst (snd row)) rows)
   \<and> int (length rows) \<le> max 0 (max_rows options)
   \<and> (\<forall>row \<in> set rows. min_score options \<le> fst (snd row))
   \<and> (\<forall>k. prefix (filter (\<lambda>row. fst (snd row) = k) rows)
                   (filter (\<lambda>row. fst (snd row) = k) (get_user_results r)))"
proof -
  let ?rows = "ranked_rows options 0 (sorted_user_results r)"
  have p: "prefix ?rows (sorted_user_results r)" by (rule ranked_rows_prefix)
  have 1: "build_summary_lines r options = header_line r options # map row_line ?rows"
    by (simp add: build_summary_lines_def)
  have 2: "sorted_wrt (\<lambda>x y. x \<ge> y) (map (\<lambda>row. fst (snd row)) ?rows)"
    using map_mono_prefix [OF p] sorted_user_results_descending by (rule sorted_wrt_prefix)
  have 3: "int (length ?rows) \<le> max 0 (max_rows options)"
    using ranked_rows_length [of options 0] by simp
  have 4: "\<forall>row \<in> set ?rows. min_score options \<le> fst (snd row)"
    using ranked_rows_min_score by blast
  have 5: "prefix (filter (\<lambda>row. fst (snd row) = k) ?rows)
                  (filter (\<lambda>row. fst (snd row) = k) (get_user_results r))" for k
    using filter_mono_prefix [OF p, of "\<lambda>row. fst (snd row) = k"]
    by (simp add: sorted_user_results_stable)
  show ?thesis using 1 2 3 4 5 by (simp add: Let_def)
qed

text \<open>
  Four authors, the first and the third tied at 22: the rows are the second author, then the
  first, then the third.
\<close>

theorem ranked_rows_ordered_capped_stable_witness:
  "ranked_rows top_options 0 (sorted_user_results tied_report) = [(2, 30, 1), (1, 22, 2), (3, 22, 1)]
   \<and> (1, 22, 2) \<in> set (ranked_rows top_options 0 (sorted_user_results tied_report))
   \<and> min_score top_options \<le> fst (snd ((1, 22, 2) :: int \<times> int \<times> int))
   \<and> int (length (ranked_rows top_options 0 (sorted_user_results tied_report))) \<le> 3
   \<and> prefix [(1, 22, 2), (3, 22, 1)]
        (filter (\<lambda>row. fst (snd row) = 22) (get_user_results tied_report))"
proof -
  have o: "min_score top_options = 5" "max_rows top_options = 3"
    by (simp_all add: top_options_def)
  show ?thesis
    using ranked_rows_ordered_capped_stable [of top_options tied_report]
    by (simp add: Let_def tied_report_rows o)
qed

text \<open>
  C7. The history of the channel at position \<open>m\<close> raises and no earlier one does. Then
  \<^verbatim>\<open>build\<close> ends in the exception and returns no report; the histories requested are those
  of the positions up to \<open>m\<close>; every later state is as \<^verbatim>\<open>reset\<close> made it and has never left
  \<^verbatim>\<open>INCOMPLETE\<close>; the state at \<open>m\<close> is in progress and is complete in no logged state and in
  no progress call; the last progress call shows the channels before \<open>m\<close> complete, \<open>m\<close> in
  progress and the later ones incomplete.
\<close>

theorem fetch_error_aborts_run:
  assumes "m < length chans"
    and "raises (history (chans ! m))"
    and "\<forall>j < m. \<not> raises (history (chans ! j))"
  shows "fst (build utcnow chans a b) = Inl SourceFetchError
     \<and> history_calls (snd (build utcnow chans a b)) = [0..<Suc m]
     \<and> (\<forall>j. m < j \<and> j < length chans \<longrightarrow>
           self_channel_states (snd (build utcnow chans a b)) ! j = new_channel_state (chans ! j)
         \<and> status_sequence j (states_log (snd (build utcnow chans a b))) = [INCOMPLETE])
     \<and> status (self_channel_states (snd (build utcnow chans a b)) ! m) = IN_PROGRESS
     \<and> (\<forall>states \<in> set (states_log (snd (build utcnow chans a b))).
           status (states ! m) \<noteq> COMPLETE)
     \<and> (\<forall>p \<in> set (progress_calls (snd (build utcnow chans a b))).
           status (rendered p ! m) \<noteq> COMPLETE)
     \<and> map status (rendered (last (progress_calls (snd (build utcnow chans a b)))))
         = scanning_snapshot (length chans) m"
proof -
  from build_cases [of utcnow chans a b] show ?thesis
  proof (elim disjE exE conjE)
    fix c'
    assume "\<forall>j < length chans. \<not> raises (history (chans ! j))"
    then show ?thesis using assms by simp
  next
    fix m' c'
    assume m': "m' < length chans"
      and bd: "build utcnow chans a b = (Inl SourceFetchError, c')"
      and w: "within_channel chans m' c'"
      and r: "raises (history (chans ! m'))"
      and nr: "\<forall>j < m'. \<not> raises (history (chans ! j))"
    have "m' = m" using assms r nr by (meson linorder_neqE_nat)
    then have w: "within_channel chans m c'" using w by simp
    then have o: "others_ok chans m c'" and log: "log_ok c'"
      and seq: "status_sequence m (states_log c') = [INCOMPLETE, IN_PROGRESS]"
      and pr: "map (map status \<circ> rendered) (progress_calls c')
               = replicate (length chans) INCOMPLETE
                 # map (scanning_snapshot (length chans)) [0..<Suc m]"
      unfolding within_channel_def others_ok_def by simp_all
    have later: "\<forall>j. m < j \<and> j < length chans \<longrightarrow>
                   self_channel_states c' ! j = new_channel_state (chans ! j)
                 \<and> status_sequence j (states_log c') = [INCOMPLETE]"
      using o unfolding others_ok_def untouched_channel_def by simp
    have never: "status (states ! m) \<noteq> COMPLETE" if "states \<in> set (states_log c')" for states
      using status_sequence_members [OF that, of m] seq by auto
    have shown: "status (rendered p ! m) \<noteq> COMPLETE" if "p \<in> set (progress_calls c')" for p
      using that log never unfolding log_ok_def by blast
    have ne: "progress_calls c' \<noteq> []" using pr by auto
    have "last (map (map status \<circ> rendered) (progress_calls c')) = scanning_snapshot (length chans) m"
      unfolding pr by simp
    then have lastp: "map status (rendered (last (progress_calls c'))) = scanning_snapshot (length chans) m"
      using ne by (simp add: last_map)
    show ?thesis
      using bd w later never shown lastp unfolding within_channel_def by simp
  qed
qed

text \<open>The scenario with a failing channel between A and B.\<close>

theorem fetch_error_aborts_run_witness:
  "(1::nat) < length [channel_A, channel_failing, channel_B]
   \<and> raises (history ([channel_A, channel_failing, channel_B] ! 1))
   \<and> \<not> raises (history ([channel_A, channel_failing, channel_B] ! 0))
   \<and> fst (build window_after [channel_A, channel_failing, channel_B] window_after window_before)
       = Inl SourceFetchError
   \<and> history_calls (snd (build window_after [channel_A, channel_failing, channel_B]
                            window_after window_before)) = [0, 1]
   \<and> status (self_channel_states (snd (build window_after [channel_A, channel_failing, channel_B]
                            window_after window_before)) ! 1) = IN_PROGRESS
   \<and> self_channel_states (snd (build window_after [channel_A, channel_failing, channel_B]
                            window_after window_before)) ! 2 = new_channel_state channel_B
   \<and> map status (rendered (last (progress_calls (snd (build window_after
          [channel_A, channel_failing, channel_B] window_after window_before)))))
       = [COMPLETE, IN_PROGRESS, INCOMPLETE]"
proof -
  have h1: "(1::nat) < length [channel_A, channel_failing, channel_B]" by simp
  have h2: "raises (history ([channel_A, channel_failing, channel_B] ! 1))"
    by (simp add: channel_failing_def)
  have h3: "\<forall>j < (1::nat). \<not> raises (history ([channel_A, channel_failing, channel_B] ! j))"
    by (simp add: channel_A_def)
  have h4: "\<not> raises (history ([channel_A, channel_failing, channel_B] ! 0))"
    by (simp add: channel_A_def)
  show ?thesis
    using h1 h2 h4
      fetch_error_aborts_run [OF h1 h2 h3, of window_after window_after window_before]
    by (simp add: scanning_snapshot_def upt_rec numeral_2_eq_2)
qed

text \<open>
  C8. In every run the statuses a channel state takes on are an initial part of
  \<^verbatim>\<open>INCOMPLETE\<close>, \<^verbatim>\<open>IN_PROGRESS\<close>, \<^verbatim>\<open>COMPLETE\<close>, in this order: no status is skipped and none
  comes back. When \<^verbatim>\<open>build\<close> returns a report the sequence is the whole of the three, for
  every channel.
\<close>

theorem status_sequence_monotonic:
  assumes "i < length chans"
  shows "(status_sequence i (states_log (snd (build utcnow chans a b))) = [INCOMPLETE]
        \<or> status_sequence i (states_log (snd (build utcnow chans a b)))
            = [INCOMPLETE, IN_PROGRESS]
        \<or> status_sequence i (states_log (snd (build utcnow chans a b)))
            = [INCOMPLETE, IN_PROGRESS, COMPLETE])
       \<and> (\<not> isl (fst (build utcnow chans a b)) \<longrightarrow>
            status_sequence i (states_log (snd (build utcnow chans a b)))
            = [INCOMPLETE, IN_PROGRESS, COMPLETE])"
proof (cases "\<exists>j < length chans. raises (history (chans ! j))")
  case True
  from first_raising_channel [OF True]
  obtain m where "m < length chans" "raises (history (chans ! m))"
    "\<forall>j < m. \<not> raises (history (chans ! j))" by blast
  from run_status_sequences(2) [OF this assms, of utcnow a b] show ?thesis
    by (auto split: if_splits)
next
  case False
  then have "\<forall>j < length chans. \<not> raises (history (chans ! j))" by simp
  from run_status_sequences(1) [OF this assms, of utcnow a b] show ?thesis by simp
qed

text \<open>The first channel of the scenario.\<close>

theorem status_sequence_monotonic_witness:
  "(0::nat) < length [channel_A, channel_B]
   \<and> \<not> isl (fst (build window_after [channel_A, channel_B] window_after window_before))
   \<and> status_sequence 0
       (states_log (snd (build window_after [channel_A, channel_B] window_after window_before)))
     = [INCOMPLETE, IN_PROGRESS, COMPLETE]"
proof -
  have h: "(0::nat) < length [channel_A, channel_B]" by simp
  have r: "\<not> isl (fst (build window_after [channel_A, channel_B] window_after window_before))"
    by (simp add: scenario_run)
  show ?thesis
    using h r status_sequence_monotonic [OF h, of window_after window_after window_before]
    by simp
qed

text \<open>
  In a run that a fetch error ends, the failing channel stops at \<^verbatim>\<open>IN_PROGRESS\<close> and the
  channel after it never leaves \<^verbatim>\<open>INCOMPLETE\<close>.
\<close>

theorem aborted_run_stops_short:
  "status_sequence 1
     (states_log (snd (build window_after [channel_A, channel_failing, channel_B]
        window_after window_before)))
   = [INCOMPLETE, IN_PROGRESS]
   \<and> status_sequence 2
     (states_log (snd (build window_after [channel_A, channel_failing, channel_B]
        window_after window_before)))
   = [INCOMPLETE]"
proof -
  let ?chans = "[channel_A, channel_failing, channel_B]"
  have h1: "(1::nat) < length ?chans" by simp
  have h2: "raises (history (?chans ! 1))" by (simp add: channel_failing_def)
  have h3: "\<forall>j < (1::nat). \<not> raises (history (?chans ! j))" by (simp add: channel_A_def)
  have i2: "(2::nat) < length ?chans" by simp
  show ?thesis
    using run_status_sequences(2) [OF h1 h2 h3 h1, of window_after window_after window_before]
      run_status_sequences(2) [OF h1 h2 h3 i2, of window_after window_after window_before]
    by simp
qed

text \<open>
  C9. In every logged configuration of the channel states and in every progress call of a
  run, a state that is complete has both counters; and when \<^verbatim>\<open>build\<close> returns a report, the
  report has one state for each channel, each complete with both counters.
\<close>

theorem complete_states_are_counted:
  "(\<forall>states \<in> set (states_log (snd (build utcnow chans a b))). \<forall>state \<in> set states.
      status state = COMPLETE \<longrightarrow>
      total_messages state \<noteq> None \<and> total_message_length state \<noteq> None)
   \<and> (\<forall>p \<in> set (progress_calls (snd (build utcnow chans a b))). \<forall>state \<in> set (rendered p).
      status state = COMPLETE \<longrightarrow>
      total_messages state \<noteq> None \<and> total_message_length state \<noteq> None)
   \<and> (\<forall>r. fst (build utcnow chans a b) = Inr r \<longrightarrow>
        length (channel_states r) = length chans
      \<and> (\<forall>state \<in> set (channel_states r).
           status state = COMPLETE
         \<and> total_messages state \<noteq> None \<and> total_message_length state \<noteq> None))"
proof -
  have ok: "log_ok c \<Longrightarrow>
      (\<forall>states \<in> set (states_log c). \<forall>state \<in> set states.
         status state = COMPLETE \<longrightarrow>
         total_messages state \<noteq> None \<and> total_message_length state \<noteq> None)
    \<and> (\<forall>p \<in> set (progress_calls c). \<forall>state \<in> set (rendered p).
         status state = COMPLETE \<longrightarrow>
         total_messages state \<noteq> None \<and> total_message_length state \<noteq> None)" for c
    unfolding log_ok_def counted_def by blast
  from build_cases [of utcnow chans a b] show ?thesis
  proof (elim disjE exE conjE)
    fix c'
    assume bd: "build utcnow chans a b
                = (Inr \<lparr>after = a, before = b, built_at = utcnow,
                        channel_states = self_channel_states c',
                        user_table = self_user_table c'\<rparr>, update c')"
      and bt: "between_channels chans (length chans) c'"
    have log: "log_ok (update c')" using bt unfolding between_channels_def
      by (simp add: log_ok_update)
    have len: "length (self_channel_states c') = length chans"
      using bt unfolding between_channels_def by simp
    have "finished_channel j c'" if "j < length chans" for j
      using bt that unfolding between_channels_def by simp
    then have "\<forall>state \<in> set (self_channel_states c').
                 status state = COMPLETE
               \<and> total_messages state \<noteq> None \<and> total_message_length state \<noteq> None"
      using len unfolding finished_channel_def counted_def by (auto simp: in_set_conv_nth)
    then show ?thesis using ok [OF log] bd len by simp
  next
    fix m c'
    assume bd: "build utcnow chans a b = (Inl SourceFetchError, c')"
      and w: "within_channel chans m c'"
    have log: "log_ok c'" using w unfolding within_channel_def others_ok_def by simp
    show ?thesis using ok [OF log] bd by simp
  qed
qed

text \<open>The report of the scenario, and its progress calls.\<close>

theorem complete_states_are_counted_witness:
  "fst (build window_after [channel_A, channel_B] window_after window_before)
   = Inr \<lparr>after = window_after, before = window_before, built_at = window_after,
          channel_states =
            [\<lparr>help_channel = channel_A, channel = channel_A, status = COMPLETE,
              total_messages = Some 2, total_message_length = Some 15\<rparr>,
             \<lparr>help_channel = channel_B, channel = channel_B, status = COMPLETE,
              total_messages = Some 1, total_message_length = Some 7\<rparr>],
          user_table = [(1, [((2024, 1, 1), 15), ((2024, 1, 2), 7)])]\<rparr>
   \<and> status (rendered (last (progress_calls
        (snd (build window_after [channel_A, channel_B] window_after window_before)))) ! 0)
     = COMPLETE
   \<and> total_messages (rendered (last (progress_calls
        (snd (build window_after [channel_A, channel_B] window_after window_before)))) ! 0)
     \<noteq> None
   \<and> total_message_length (rendered (last (progress_calls
        (snd (build window_after [channel_A, channel_B] window_after window_before)))) ! 0)
     \<noteq> None"
proof -
  let ?calls = "progress_calls
                  (snd (build window_after [channel_A, channel_B] window_after window_before))"
  have h: "\<forall>h \<in> set [channel_A, channel_B]. \<not> raises (history h)"
    by (simp add: channel_A_def channel_B_def)
  have seq: "map (map status \<circ> rendered) ?calls
             = [[INCOMPLETE, INCOMPLETE], [IN_PROGRESS, INCOMPLETE],
                [COMPLETE, IN_PROGRESS], [COMPLETE, COMPLETE]]"
    using progress_statuses_complete_run [OF h, of window_after window_after window_before]
    by (simp add: scanning_snapshot_def upt_rec numeral_2_eq_2)
  then have ne: "?calls \<noteq> []" by auto
  have "last (map (map status \<circ> rendered) ?calls) = [COMPLETE, COMPLETE]"
    unfolding seq by simp
  then have st: "map status (rendered (last ?calls)) = [COMPLETE, COMPLETE]"
    using ne by (simp add: last_map)
  then have len: "length (rendered (last ?calls)) = 2"
    by (metis length_map length_Cons list.size(3) numeral_2_eq_2)
  have s0: "status (rendered (last ?calls) ! 0) = COMPLETE"
    using st len by (metis nth_map nth_Cons_0 zero_less_numeral)
  have m1: "last ?calls \<in> set ?calls" using ne by simp
  have m2: "rendered (last ?calls) ! 0 \<in> set (rendered (last ?calls))"
    using len by simp
  show ?thesis
    using complete_states_are_counted [of window_after "[channel_A, channel_B]"
            window_after window_before] scenario_run s0 m1 m2
    by auto
qed

text \<open>
  C10. The header is the first summary line, so there is always a batch, whatever the rows
  and the options; \<^verbatim>\<open>summarize\<close> finds \<^verbatim>\<open>batches[0]\<close> and replies with it.
\<close>

theorem summarize_finds_first_batch:
  "hd (build_summary_lines r options) = header_line r options
   \<and> batch_summary_text r options \<noteq> []
   \<and> (\<exists>rest. summarize r (split_length options) (max_rows options) (min_score options)
        = Inr (CtxReply ''The results are in:''
                 (make_summary_batch_embed r 1 (int (length (batch_summary_text r options)))
                    (hd (batch_summary_text r options))) # rest))"
proof -
  have ne: "batch_summary_text r options \<noteq> []"
    unfolding batch_summary_text_def build_summary_lines_def
    by (rule batch_loop_nonempty) simp
  then obtain first_batch rest where b: "batch_summary_text r options = first_batch # rest"
    by (cases "batch_summary_text r options") auto
  have o: "\<lparr>split_length = split_length options, max_rows = max_rows options,
            min_score = min_score options\<rparr> = options" by simp
  show ?thesis using ne b
    by (simp add: summarize_def HelpChatSummaryOptions_init_def o Let_def build_summary_lines_def)
qed

end
